theory Spec2Isabelle
  imports Main "HOL-Library.Word"
begin

unbundle bit_operations_syntax

section \<open>Machine model\<close>

text \<open>
  The allocator is C++ for a 64-bit platform: \<open>size_t\<close> and pointers are 64-bit
  words, \<open>sizeof(void*) = 8\<close>, and \<open>nullptr\<close> is the address 0.  Arithmetic on
  them wraps around as the hardware does.
\<close>

type_synonym addr = "64 word"
type_synonym size_t = "64 word"
type_synonym byte = "8 word"

text \<open>
  What the C++ leaves undefined is a value of the model: a store through \<open>nullptr\<close>,
  an index outside a vector, and the exception \<open>std::bad_alloc\<close>.
\<close>

datatype fault = NullDeref | OutOfRange | BadAlloc

section \<open>The dispatcher of \<open>custom_new_delete.cpp\<close>\<close>

subsection \<open>Constants of the anonymous namespace\<close>

definition threshold :: size_t where
  "threshold = 128"

definition sizeof_voidp :: size_t where
  "sizeof_voidp = 8"

text \<open>\<open>__mod = sizeof(void*) - 1\<close> and \<open>__logOfVoid = log2(sizeof(void*))\<close>.\<close>

definition ptr_mod :: size_t where
  "ptr_mod = sizeof_voidp - 1"

definition logOfVoid :: nat where
  "logOfVoid = 3"

text \<open>\<open>struct MallocHeader { char validity[16] = "              \0"; }\<close>\<close>

definition sizeof_MallocHeader :: size_t where
  "sizeof_MallocHeader = 16"

definition MallocHeader_init :: "byte list" where
  "MallocHeader_init = replicate 14 (of_char CHR '' '') @ [0, 0]"

text \<open>The string literal \<open>"IsThIsMaLlOcD!\0"\<close> up to its first NUL.\<close>

definition IsThIsMaLlOcD :: "byte list" where
  "IsThIsMaLlOcD = map of_char ''IsThIsMaLlOcD!''"

text \<open>\<open>static GlobalPools pools(__threshold >> __logOfVoid)\<close>: the number of pool sets.\<close>

definition num_pools :: size_t where
  "num_pools = drop_bit logOfVoid threshold"

subsection \<open>The process state seen by the dispatcher\<close>

text \<open>
  The dispatcher touches memory byte by byte (\<open>strcpy\<close>, \<open>strcmp\<close>) and calls
  \<open>std::malloc\<close>, \<open>free\<close> and the pool sets of \<open>GlobalPools\<close>.  The calls are
  recorded in a trace, in the order they are made; what \<open>malloc\<close> and a pool set will
  answer is an input (\<open>malloc_results\<close>, \<open>pool_results\<close>), with 0 for \<open>nullptr\<close>
  and the empty list for an allocator that has nothing left.
\<close>

datatype event =
    Malloc size_t
  | Free addr
  | PoolAllocate size_t
  | PoolDeallocate size_t addr
  | Read addr

record world =
  bytes :: "addr \<Rightarrow> byte"
  page_lg :: nat
  malloc_results :: "addr list"
  pool_results :: "addr list"
  trace :: "event list"

definition log_event :: "event \<Rightarrow> world \<Rightarrow> world" where
  "log_event e w = w\<lparr>trace := trace w @ [e]\<rparr>"

definition std_malloc :: "size_t \<Rightarrow> world \<Rightarrow> addr \<times> world" where
  "std_malloc n w =
     (case malloc_results w of
        [] \<Rightarrow> (0, log_event (Malloc n) w)
      | a # as \<Rightarrow> (a, log_event (Malloc n) (w\<lparr>malloc_results := as\<rparr>)))"

definition std_free :: "addr \<Rightarrow> world \<Rightarrow> world" where
  "std_free a w = log_event (Free a) w"

fun store_bytes :: "addr \<Rightarrow> byte list \<Rightarrow> (addr \<Rightarrow> byte) \<Rightarrow> (addr \<Rightarrow> byte)" where
  "store_bytes a [] m = m"
| "store_bytes a (b # bs) m = store_bytes (a + 1) bs (m(a := b))"

text \<open>A store whose destination is \<open>nullptr\<close> is the fault \<open>NullDeref\<close>.\<close>

definition write_bytes :: "addr \<Rightarrow> byte list \<Rightarrow> world \<Rightarrow> fault + world" where
  "write_bytes a bs w =
     (if a = 0 then Inl NullDeref else Inr (w\<lparr>bytes := store_bytes a bs (bytes w)\<rparr>))"

text \<open>
  \<open>strcmp(p, lit) == 0\<close> for a literal without an inner NUL: every character of the
  literal is found at \<open>p\<close>, followed by the terminating NUL.
\<close>

fun strcmp_eq :: "(addr \<Rightarrow> byte) \<Rightarrow> addr \<Rightarrow> byte list \<Rightarrow> bool" where
  "strcmp_eq m a [] = (m a = 0)"
| "strcmp_eq m a (c # cs) = (m a = c \<and> strcmp_eq m (a + 1) cs)"

text \<open>A little-endian 64-bit load, for the \<open>size_t\<close> fields of a pool header.\<close>

definition load64 :: "(addr \<Rightarrow> byte) \<Rightarrow> addr \<Rightarrow> size_t" where
  "load64 m a = word_rcat (rev (map (\<lambda>i. m (a + of_nat i)) [0..<8]))"

subsection \<open>Parts of the repository that \<open>custom_new_delete.cpp\<close> calls\<close>

text \<open>
  Modelled from the spec: \<open>mod\<close> of \<open>pool_utils.hpp\<close> is not among the sources; the
  spec gives the test as \<open>size % alignment != 0\<close>.
\<close>

definition mod_sz :: "size_t \<Rightarrow> size_t \<Rightarrow> size_t" where
  "mod_sz a b = a mod b"

text \<open>
  \<open>getAllocatorsIndex\<close> as the second version of \<open>custom_new_delete2.h\<close> has it
  (with the test for 0), and as the first version has it (without).
\<close>

definition getAllocatorsIndex :: "size_t \<Rightarrow> size_t" where
  "getAllocatorsIndex sz = (if sz = 0 then 0 else drop_bit logOfVoid sz - 1)"

definition getAllocatorsIndex_G2 :: "size_t \<Rightarrow> size_t" where
  "getAllocatorsIndex_G2 sz = drop_bit logOfVoid sz - 1"

text \<open>
  Modelled from the spec: \<open>GlobalPools::getPool\<close> (\<open>GlobalPools.cpp\<close>) is not among
  the sources.  The spec indexes the array of pool sets by
  \<open>(slot_size / pointer_size) - 1\<close>; an index outside the array is the fault
  \<open>OutOfRange\<close>.  The pool set's \<open>allocate\<close> and \<open>deallocate\<close> are calls in the
  trace.
\<close>

definition getPool :: "size_t \<Rightarrow> fault + size_t" where
  "getPool t_size =
     (let index = drop_bit logOfVoid t_size - 1
      in if index < num_pools then Inr index else Inl OutOfRange)"

definition getPool_allocate :: "size_t \<Rightarrow> world \<Rightarrow> fault + (addr \<times> world)" where
  "getPool_allocate t_size w =
     (case getPool t_size of
        Inl f \<Rightarrow> Inl f
      | Inr index \<Rightarrow>
          (case pool_results w of
             [] \<Rightarrow> Inr (0, log_event (PoolAllocate t_size) w)
           | a # as \<Rightarrow> Inr (a, log_event (PoolAllocate t_size) (w\<lparr>pool_results := as\<rparr>))))"

definition getPool_deallocate :: "size_t \<Rightarrow> addr \<Rightarrow> world \<Rightarrow> fault + world" where
  "getPool_deallocate t_size t_ptr w =
     (case getPool t_size of
        Inl f \<Rightarrow> Inl f
      | Inr index \<Rightarrow> Inr (log_event (PoolDeallocate t_size t_ptr) w))"

text \<open>
  \<open>getPoolHeader\<close> masks the pointer to its page, as
  \<open>GlobalLinkedPool2::getPoolHeader\<close> does with
  \<open>POOL_MASK = -1 >> log2(PAGE_SIZE) << log2(PAGE_SIZE)\<close>.
\<close>

definition POOL_MASK :: "nat \<Rightarrow> size_t" where
  "POOL_MASK lg = push_bit lg (signed_drop_bit lg (- 1))"

definition getPoolHeader :: "nat \<Rightarrow> addr \<Rightarrow> addr" where
  "getPoolHeader lg t_ptr = t_ptr AND POOL_MASK lg"

text \<open>
  Modelled from the spec: the declaration of \<open>PoolHeaderG\<close> is not among the sources.
  The field \<open>sizeOfSlot\<close> is put where \<open>PoolHeaderG2\<close> has \<open>sizeOfObjects\<close>:
  after the 8-byte tag and the occupancy count.
\<close>

definition offsetof_sizeOfSlot :: addr where
  "offsetof_sizeOfSlot = 16"

subsection \<open>\<open>custom_new_no_throw\<close>, \<open>custom_new\<close>, \<open>custom_delete\<close>\<close>

text \<open>The normalisation of the small path (lines 39 to 49).\<close>

definition normalize_size :: "size_t \<Rightarrow> size_t \<Rightarrow> size_t" where
  "normalize_size t_size t_alignment =
     (let remainder = t_size AND ptr_mod;
          t_size = (if remainder = 0 then t_size else (t_size + ptr_mod) AND NOT ptr_mod)
      in t_size + (if mod_sz t_size t_alignment = 0 then 0 else sizeof_voidp))"

definition custom_new_no_throw :: "size_t \<Rightarrow> size_t \<Rightarrow> world \<Rightarrow> fault + (addr \<times> world)" where
  "custom_new_no_throw t_size t_alignment w =
     (if t_size > threshold then
        (case std_malloc (t_size + sizeof_MallocHeader) w of
           (addr, w1) \<Rightarrow>
             (case write_bytes addr MallocHeader_init w1 of
                Inl f \<Rightarrow> Inl f
              | Inr w2 \<Rightarrow>
                  (case write_bytes addr (IsThIsMaLlOcD @ [0]) w2 of
                     Inl f \<Rightarrow> Inl f
                   | Inr w3 \<Rightarrow> Inr (addr + sizeof_MallocHeader, w3))))
      else getPool_allocate (normalize_size t_size t_alignment) w)"

definition custom_new :: "size_t \<Rightarrow> size_t \<Rightarrow> world \<Rightarrow> fault + (addr \<times> world)" where
  "custom_new t_size t_alignment w =
     (case custom_new_no_throw t_size t_alignment w of
        Inl f \<Rightarrow> Inl f
      | Inr (toRet, w') \<Rightarrow> if toRet = 0 then Inl BadAlloc else Inr (toRet, w'))"

definition custom_delete :: "addr \<Rightarrow> world \<Rightarrow> fault + world" where
  "custom_delete t_ptr w =
     (let cAddr = t_ptr - sizeof_MallocHeader;
          w1 = log_event (Read cAddr) w
      in if strcmp_eq (bytes w1) cAddr IsThIsMaLlOcD then Inr (std_free cAddr w1)
         else
           (let ph = getPoolHeader (page_lg w1) t_ptr;
                w2 = log_event (Read ph) w1;
                sizeOfSlot = load64 (bytes w2) (ph + offsetof_sizeOfSlot)
            in getPool_deallocate sizeOfSlot t_ptr w2))"

subsection \<open>The replaced operators\<close>

definition operator_delete :: "addr \<Rightarrow> world \<Rightarrow> fault + world" where
  "operator_delete t_ptr w = (if t_ptr \<noteq> 0 then custom_delete t_ptr w else Inr w)"

definition operator_delete_nothrow :: "addr \<Rightarrow> world \<Rightarrow> fault + world" where
  "operator_delete_nothrow t_ptr w = (if t_ptr \<noteq> 0 then custom_delete t_ptr w else Inr w)"

definition operator_delete_array :: "addr \<Rightarrow> world \<Rightarrow> fault + world" where
  "operator_delete_array t_ptr w = custom_delete t_ptr w"

definition operator_delete_array_nothrow :: "addr \<Rightarrow> world \<Rightarrow> fault + world" where
  "operator_delete_array_nothrow t_ptr w = custom_delete t_ptr w"

text \<open>The value of \<open>t_size\<close> after line 41, before the alignment is looked at.\<close>

definition round_up :: "size_t \<Rightarrow> size_t" where
  "round_up t_size =
     (if t_size AND ptr_mod = 0 then t_size else (t_size + ptr_mod) AND NOT ptr_mod)"

subsection \<open>Example states\<close>

text \<open>A process in which \<open>std::malloc\<close> has nothing left and returns \<open>nullptr\<close>.\<close>

definition oom_world :: world where
  "oom_world =
     \<lparr>bytes = (\<lambda>a. 0), page_lg = 12, malloc_results = [], pool_results = [], trace = []\<rparr>"

section \<open>The system underneath the pools\<close>

text \<open>
  The pool classes read and write pointer-sized words only: the fields of the pool
  header and the first word of a slot.  Slots are at least 8 bytes long and the header
  fields are 8 bytes apart, so two such words never overlap, and the heap is a store
  of 64-bit words by their start address.

  The system is the page size (\<open>sysconf(_SC_PAGESIZE)\<close>, here \<open>2 ^ lg\<close>), the heap,
  the pages \<open>aligned_alloc(PAGE_SIZE, PAGE_SIZE)\<close> will return on its next calls
  (0 is \<open>nullptr\<close>, the empty list a system with no memory left), and the pages
  handed out and not yet given back to \<open>free\<close>.
\<close>

type_synonym heap = "addr \<Rightarrow> addr"

record sys =
  lg :: nat
  mem :: heap
  pages :: "addr list"
  live :: "addr set"

definition getPageSize :: "nat \<Rightarrow> size_t" where
  "getPageSize n = 2 ^ n"

text \<open>
  Modelled from the spec: \<open>getPoolMask\<close> of \<open>pool_utils.hpp\<close> is not among the
  sources; the spec recovers the header as \<open>p & ~(page_size - 1)\<close>, which is the
  \<open>POOL_MASK\<close> of \<open>GlobalLinkedPool2\<close>.
\<close>

definition getPoolMask :: "nat \<Rightarrow> size_t" where
  "getPoolMask n = NOT (getPageSize n - 1)"

definition aligned_alloc :: "sys \<Rightarrow> addr \<times> sys" where
  "aligned_alloc s =
     (case pages s of
        [] \<Rightarrow> (0, s)
      | p # ps \<Rightarrow>
          (p, s\<lparr>pages := ps, live := (if p = 0 then live s else insert p (live s))\<rparr>))"

definition sys_free :: "addr \<Rightarrow> sys \<Rightarrow> sys" where
  "sys_free p s = s\<lparr>live := live s - {p}\<rparr>"

text \<open>
  Modelled from the spec: the AVL tree of \<open>avl_utils.h\<close> is not among the sources.
  The spec has \<open>non_full_pools\<close> an ordered set of pool addresses whose first
  element is the one of minimum address; \<open>pool_first\<close> of an empty tree is
  \<open>nullptr\<close>.  \<open>std::set<Pool>\<close> of \<open>GlobalLinkedPool2\<close> is the same set, with
  \<open>*begin()\<close> its minimum.
\<close>

definition pool_first :: "addr set \<Rightarrow> addr" where
  "pool_first S = (if S = {} then 0 else Min S)"

definition pool_insert :: "addr \<Rightarrow> addr set \<Rightarrow> addr set" where
  "pool_insert p S = insert p S"

definition pool_remove :: "addr \<Rightarrow> addr set \<Rightarrow> addr set" where
  "pool_remove p S = S - {p}"

text \<open>
  The loop that both pool classes run over a new page, \<open>n\<close> times:
  \<open>node = first; *node = Node(); first += slotSize; node->next = first\<close>.
\<close>

fun link_slots :: "nat \<Rightarrow> addr \<Rightarrow> size_t \<Rightarrow> heap \<Rightarrow> addr \<times> heap" where
  "link_slots 0 first slotSize h = (first, h)"
| "link_slots (Suc n) first slotSize h =
     link_slots n (first + slotSize) slotSize (h(first := 0, first := first + slotSize))"

text \<open>
  The free list that starts at \<open>p\<close>, as far as \<open>n\<close> links are followed, and the
  statement that \<open>xs\<close> is the whole list from \<open>p\<close> to \<open>nullptr\<close>.
\<close>

fun free_list :: "nat \<Rightarrow> heap \<Rightarrow> addr \<Rightarrow> addr list" where
  "free_list 0 h p = []"
| "free_list (Suc n) h p = (if p = 0 then [] else p # free_list n h (h p))"

primrec path :: "heap \<Rightarrow> addr \<Rightarrow> addr list \<Rightarrow> bool" where
  "path h p [] = (p = 0)"
| "path h p (x # xs) = (p = x \<and> x \<noteq> 0 \<and> path h (h x) xs)"

section \<open>\<open>LinkedPool<T>\<close>\<close>

text \<open>
  \<open>struct PoolHeader { size_t occupiedSlots; Node head; }\<close> at the start of the
  page, \<open>struct Node { Node* next; }\<close>.
\<close>

definition sizeof_Node :: size_t where
  "sizeof_Node = 8"

definition sizeof_PoolHeader :: size_t where
  "sizeof_PoolHeader = 16"

definition occupiedSlots :: "addr \<Rightarrow> addr" where
  "occupiedSlots pool = pool"

definition head_next :: "addr \<Rightarrow> addr" where
  "head_next pool = pool + 8"

record LinkedPool =
  m_freePools :: "addr set"
  m_headerPadding :: size_t
  m_slotSize :: size_t
  m_poolSize :: size_t
  m_freePool :: addr

text \<open>The constructor, for a type \<open>T\<close> with the given \<open>sizeof\<close> and \<open>alignof\<close>.\<close>

definition LinkedPool_new :: "nat \<Rightarrow> size_t \<Rightarrow> size_t \<Rightarrow> LinkedPool" where
  "LinkedPool_new n sizeof_T alignof_T =
     (let slotSize = (if sizeof_T < sizeof_Node then sizeof_Node else sizeof_T);
          headerPadding = 0;
          diff = mod_sz sizeof_PoolHeader alignof_T;
          headerPadding = (if diff \<noteq> 0 then headerPadding + (alignof_T - diff)
                           else headerPadding);
          diff = mod_sz slotSize alignof_T;
          slotSize = (if diff \<noteq> 0 then slotSize + (alignof_T - diff) else slotSize)
      in \<lparr>m_freePools = {},
          m_headerPadding = headerPadding,
          m_slotSize = slotSize,
          m_poolSize = (getPageSize n - sizeof_PoolHeader) div slotSize,
          m_freePool = 0\<rparr>)"

text \<open>
  \<open>constructPoolHeader\<close>.  Its first store goes through \<open>t_ptr\<close>; when that is
  \<open>nullptr\<close> the store is the fault \<open>NullDeref\<close>.
\<close>

definition constructPoolHeader :: "LinkedPool \<Rightarrow> addr \<Rightarrow> heap \<Rightarrow> fault + heap" where
  "constructPoolHeader lp t_ptr h =
     (if t_ptr = 0 then Inl NullDeref
      else
        (let h = h(occupiedSlots t_ptr := 0, head_next t_ptr := 0);
             first = t_ptr + sizeof_PoolHeader;
             first = first + m_headerPadding lp;
             h = h(head_next t_ptr := first)
         in case link_slots (unat (m_poolSize lp - 1)) first (m_slotSize lp) h of
              (first, h) \<Rightarrow> Inr (h(first := 0))))"

definition nextFree :: "addr \<Rightarrow> LinkedPool \<times> sys \<Rightarrow> addr \<times> LinkedPool \<times> sys" where
  "nextFree t_ptr = (\<lambda>(lp, s).
     (let h = mem s;
          toReturn = h (head_next t_ptr)
      in if toReturn \<noteq> 0 then
           (let h = h(head_next t_ptr := h toReturn);
                h = h(occupiedSlots t_ptr := h (occupiedSlots t_ptr) + 1)
            in if h (occupiedSlots t_ptr) = m_poolSize lp then
                 (let freePools = pool_remove t_ptr (m_freePools lp)
                  in (toReturn,
                      lp\<lparr>m_freePools := freePools, m_freePool := pool_first freePools\<rparr>,
                      s\<lparr>mem := h\<rparr>))
               else (toReturn, lp, s\<lparr>mem := h\<rparr>))
         else (toReturn, lp, s)))"

definition allocate :: "LinkedPool \<times> sys \<Rightarrow> fault + (addr \<times> LinkedPool \<times> sys)" where
  "allocate = (\<lambda>(lp, s).
     if m_freePool lp \<noteq> 0 then Inr (nextFree (m_freePool lp) (lp, s))
     else
       (let pool = pool_first (m_freePools lp)
        in if pool \<noteq> 0 then Inr (nextFree pool (lp, s))
           else
             (case aligned_alloc s of
                (pool, s) \<Rightarrow>
                  (case constructPoolHeader lp pool (mem s) of
                     Inl f \<Rightarrow> Inl f
                   | Inr h \<Rightarrow>
                       Inr (nextFree pool
                              (lp\<lparr>m_freePools := pool_insert pool (m_freePools lp),
                                  m_freePool := pool\<rparr>,
                               s\<lparr>mem := h\<rparr>))))))"

definition deallocate :: "addr \<Rightarrow> LinkedPool \<times> sys \<Rightarrow> LinkedPool \<times> sys" where
  "deallocate t_ptr = (\<lambda>(lp, s).
     (let pool = t_ptr AND getPoolMask (lg s);
          h = mem s
      in if h (occupiedSlots pool) = 1 then
           (let freePools = pool_remove pool (m_freePools lp)
            in (lp\<lparr>m_freePools := freePools, m_freePool := pool_first freePools\<rparr>,
                sys_free pool s))
         else
           (let h = h(t_ptr := 0);
                h = h(t_ptr := h (head_next pool));
                h = h(head_next pool := t_ptr);
                lp = lp\<lparr>m_freePool := pool\<rparr>;
                h = h(occupiedSlots pool := h (occupiedSlots pool) - 1)
            in if h (occupiedSlots pool) = m_poolSize lp - 1 then
                 (lp\<lparr>m_freePools := pool_insert pool (m_freePools lp)\<rparr>, s\<lparr>mem := h\<rparr>)
               else (lp, s\<lparr>mem := h\<rparr>))))"

definition page_aligned :: "nat \<Rightarrow> addr \<Rightarrow> bool" where
  "page_aligned n b = (b AND (getPageSize n - 1) = 0)"

fun chain :: "addr \<Rightarrow> size_t \<Rightarrow> nat \<Rightarrow> addr list" where
  "chain first slotSize 0 = []"
| "chain first slotSize (Suc n) = first # chain (first + slotSize) slotSize n"

definition slot_addrs :: "LinkedPool \<Rightarrow> addr \<Rightarrow> addr list" where
  "slot_addrs lp pool =
     chain (pool + sizeof_PoolHeader + m_headerPadding lp) (m_slotSize lp) (unat (m_poolSize lp))"

definition pool_free_list :: "LinkedPool \<Rightarrow> heap \<Rightarrow> addr \<Rightarrow> addr list" where
  "pool_free_list lp h pool = free_list (Suc (unat (m_poolSize lp))) h (h (head_next pool))"

definition pool_inv :: "LinkedPool \<Rightarrow> heap \<Rightarrow> addr \<Rightarrow> bool" where
  "pool_inv lp h pool =
     (let fl = pool_free_list lp h pool
      in path h (h (head_next pool)) fl \<and> distinct fl
         \<and> set fl \<subseteq> set (slot_addrs lp pool)
         \<and> unat (h (occupiedSlots pool)) + length fl = unat (m_poolSize lp))"

definition allocated :: "LinkedPool \<Rightarrow> heap \<Rightarrow> addr \<Rightarrow> addr set" where
  "allocated lp h pool = set (slot_addrs lp pool) - set (pool_free_list lp h pool)"

definition live_slots :: "LinkedPool \<times> sys \<Rightarrow> addr set" where
  "live_slots = (\<lambda>(lp, s). \<Union>pool\<in>live s. allocated lp (mem s) pool)"

definition lp_geom :: "nat \<Rightarrow> LinkedPool \<Rightarrow> bool" where
  "lp_geom n lp =
     (n < 64 \<and> 8 \<le> unat (m_slotSize lp) \<and> 1 \<le> unat (m_poolSize lp)
      \<and> 16 + unat (m_headerPadding lp) + unat (m_poolSize lp) * unat (m_slotSize lp) \<le> 2 ^ n)"

definition pools_inv :: "addr set \<Rightarrow> LinkedPool \<times> sys \<Rightarrow> bool" where
  "pools_inv fresh = (\<lambda>(lp, s).
     lp_geom (lg s) lp \<and> finite (live s) \<and> m_freePools lp \<subseteq> live s
     \<and> (if m_freePools lp = {} then m_freePool lp = 0 else m_freePool lp \<in> m_freePools lp)
     \<and> (\<forall>pool\<in>live s.
           pool \<noteq> 0 \<and> page_aligned (lg s) pool \<and> pool_inv lp (mem s) pool
           \<and> (pool \<notin> fresh \<longrightarrow> mem s (occupiedSlots pool) \<noteq> 0)
           \<and> (pool \<in> m_freePools lp \<longleftrightarrow> mem s (occupiedSlots pool) \<noteq> m_poolSize lp)))"

definition lp_inv :: "LinkedPool \<times> sys \<Rightarrow> bool" where
  "lp_inv = pools_inv {}"

definition next_page_ok :: "sys \<Rightarrow> bool" where
  "next_page_ok s =
     (case pages s of
        [] \<Rightarrow> True
      | p # ps \<Rightarrow> p = 0 \<or> (page_aligned (lg s) p \<and> p \<notin> live s))"

definition slot_off :: "LinkedPool \<Rightarrow> nat \<Rightarrow> nat" where
  "slot_off lp k = 16 + unat (m_headerPadding lp) + k * unat (m_slotSize lp)"

definition pool_abs :: "LinkedPool \<Rightarrow> heap \<Rightarrow> addr \<Rightarrow> addr list \<Rightarrow> bool" where
  "pool_abs lp h pool fl =
     (path h (h (head_next pool)) fl \<and> distinct fl \<and> set fl \<subseteq> set (slot_addrs lp pool)
      \<and> unat (h (occupiedSlots pool)) + length fl = unat (m_poolSize lp))"

definition same_outside :: "nat \<Rightarrow> addr \<Rightarrow> heap \<Rightarrow> heap \<Rightarrow> bool" where
  "same_outside n b h h' = (\<forall>x. x AND getPoolMask n \<noteq> b \<longrightarrow> h' x = h x)"

definition fresh_sys :: "nat \<Rightarrow> addr list \<Rightarrow> sys" where
  "fresh_sys n ps = \<lparr>lg = n, mem = (\<lambda>a. 0), pages = ps, live = {}\<rparr>"

fun allocate_n :: "nat \<Rightarrow> LinkedPool \<times> sys \<Rightarrow> fault + (addr list \<times> LinkedPool \<times> sys)" where
  "allocate_n 0 st = Inr ([], st)"
| "allocate_n (Suc n) st =
     (case allocate st of
        Inl f \<Rightarrow> Inl f
      | Inr (p, st') \<Rightarrow>
          (case allocate_n n st' of
             Inl f \<Rightarrow> Inl f
           | Inr (ps, st'') \<Rightarrow> Inr (p # ps, st'')))"

definition pages_fresh :: "sys \<Rightarrow> bool" where
  "pages_fresh s =
     (distinct (pages s) \<and> (\<forall>p\<in>set (pages s). page_aligned (lg s) p \<and> p \<notin> live s))"

definition pristine :: "LinkedPool \<times> sys \<Rightarrow> bool" where
  "pristine = (\<lambda>(lp, s). \<forall>pool\<in>live s.
     pool_free_list lp (mem s) pool
       = drop (unat (m_poolSize lp) - length (pool_free_list lp (mem s) pool))
           (slot_addrs lp pool))"

definition test_interleaving :: "LinkedPool \<times> sys \<Rightarrow> fault + (addr list \<times> addr \<times> addr)" where
  "test_interleaving st =
     (case allocate_n 5 st of
        Inl f \<Rightarrow> Inl f
      | Inr (objs, st) \<Rightarrow>
          (let st = deallocate (objs ! 1) st;
               st = deallocate (objs ! 4) st
           in case allocate st of
                Inl f \<Rightarrow> Inl f
              | Inr (F, st) \<Rightarrow>
                  (case allocate st of
                     Inl f \<Rightarrow> Inl f
                   | Inr (G, st) \<Rightarrow> Inr (objs, F, G))))"

definition one_pool :: "LinkedPool \<Rightarrow> addr \<Rightarrow> addr list \<Rightarrow> LinkedPool \<times> sys \<Rightarrow> bool" where
  "one_pool lp0 pg fl = (\<lambda>(lp, s).
     lp_inv (lp, s) \<and> live s = {pg} \<and> pool_free_list lp (mem s) pg = fl
     \<and> m_headerPadding lp = m_headerPadding lp0 \<and> m_slotSize lp = m_slotSize lp0
     \<and> m_poolSize lp = m_poolSize lp0)"

definition ex_lp :: LinkedPool where
  "ex_lp = LinkedPool_new 12 1024 8"

definition ex_st :: "LinkedPool \<times> sys" where
  "ex_st = (ex_lp, fresh_sys 12 [0x10000, 0x20000])"

definition ex_lp16 :: LinkedPool where
  "ex_lp16 = LinkedPool_new 12 16 8"

section \<open>\<open>GlobalLinkedPool2\<close>\<close>

text \<open>
  \<open>struct PoolHeaderG2 { char isPool[8] = "__pool_"; size_t sizeOfPool;
  size_t sizeOfObjects; NodeG2 head; }\<close> at the start of the page.  \<open>IS_POOL\<close> is
  the 8 bytes \<open>"__pool_\0"\<close> read as one little-endian word.
\<close>

definition sizeof_NodeG2 :: size_t where
  "sizeof_NodeG2 = 8"

definition sizeof_PoolHeaderG2 :: size_t where
  "sizeof_PoolHeaderG2 = 32"

definition IS_POOL :: size_t where
  "IS_POOL = 0x005F6C6F6F705F5F"

definition isPool :: "addr \<Rightarrow> addr" where
  "isPool pool = pool"

definition sizeOfPool :: "addr \<Rightarrow> addr" where
  "sizeOfPool pool = pool + 8"

definition sizeOfObjects :: "addr \<Rightarrow> addr" where
  "sizeOfObjects pool = pool + 16"

definition head_next_G2 :: "addr \<Rightarrow> addr" where
  "head_next_G2 pool = pool + 24"

record GlobalLinkedPool2 =
  m_freePools_G2 :: "addr set"
  m_sizeOfObjects :: size_t
  m_poolSize_G2 :: size_t
  m_freePool_G2 :: addr

text \<open>\<open>GlobalLinkedPool2(size_t t_sizeOfObjects)\<close>, with \<open>PAGE_SIZE = 2 ^ n\<close>.\<close>

definition GlobalLinkedPool2_new :: "nat \<Rightarrow> size_t \<Rightarrow> GlobalLinkedPool2" where
  "GlobalLinkedPool2_new n t_sizeOfObjects =
     (let sizeOfObjects = (if t_sizeOfObjects < sizeof_NodeG2 then sizeof_NodeG2
                           else t_sizeOfObjects)
      in \<lparr>m_freePools_G2 = {},
          m_sizeOfObjects = sizeOfObjects,
          m_poolSize_G2 = (getPageSize n - sizeof_PoolHeaderG2) div sizeOfObjects,
          m_freePool_G2 = 0\<rparr>)"

definition nextFree_G2 ::
  "addr \<Rightarrow> GlobalLinkedPool2 \<times> sys \<Rightarrow> addr \<times> GlobalLinkedPool2 \<times> sys" where
  "nextFree_G2 pool = (\<lambda>(g, s).
     (let h = mem s
      in if h (head_next_G2 pool) \<noteq> 0 then
           (let toReturn = h (head_next_G2 pool);
                h = h(head_next_G2 pool := h (h (head_next_G2 pool)));
                h = h(sizeOfPool pool := h (sizeOfPool pool) + 1)
            in if h (sizeOfPool pool) = m_poolSize_G2 g then
                 (let freePools = pool_remove pool (m_freePools_G2 g)
                  in (toReturn,
                      g\<lparr>m_freePools_G2 := freePools, m_freePool_G2 := pool_first freePools\<rparr>,
                      s\<lparr>mem := h\<rparr>))
               else (toReturn, g, s\<lparr>mem := h\<rparr>))
         else (h (head_next_G2 pool), g, s)))"

text \<open>
  The \<open>else\<close> branch of \<open>allocate\<close> up to the insertion into \<open>m_freePools\<close>
  (lines 119 to 133): the header and the links of a new page.  The first store goes
  through \<open>pool\<close>; for \<open>nullptr\<close> it is the fault \<open>NullDeref\<close>.
\<close>

definition init_pool_G2 :: "GlobalLinkedPool2 \<Rightarrow> addr \<Rightarrow> heap \<Rightarrow> fault + heap" where
  "init_pool_G2 g pool h =
     (if pool = 0 then Inl NullDeref
      else
        (let h = h(isPool pool := IS_POOL, sizeOfPool pool := 0, sizeOfObjects pool := 0,
                   head_next_G2 pool := 0);
             h = h(sizeOfObjects pool := m_sizeOfObjects g);
             h = h(head_next_G2 pool := pool + sizeof_PoolHeaderG2);
             first = pool + sizeof_PoolHeaderG2
         in case link_slots (unat (m_poolSize_G2 g - 1)) first (m_sizeOfObjects g) h of
              (first, h) \<Rightarrow> Inr (h(first := 0))))"

definition allocate_G2 ::
  "GlobalLinkedPool2 \<times> sys \<Rightarrow> fault + (addr \<times> GlobalLinkedPool2 \<times> sys)" where
  "allocate_G2 = (\<lambda>(g, s).
     if m_freePool_G2 g \<noteq> 0 then Inr (nextFree_G2 (m_freePool_G2 g) (g, s))
     else if m_freePools_G2 g \<noteq> {} then Inr (nextFree_G2 (pool_first (m_freePools_G2 g)) (g, s))
     else
       (case aligned_alloc s of
          (pool, s) \<Rightarrow>
            (case init_pool_G2 g pool (mem s) of
               Inl f \<Rightarrow> Inl f
             | Inr h \<Rightarrow>
                 Inr (nextFree_G2 pool
                        (g\<lparr>m_freePools_G2 := pool_insert pool (m_freePools_G2 g),
                           m_freePool_G2 := pool\<rparr>,
                         s\<lparr>mem := h\<rparr>)))))"

definition deallocate_G2 :: "addr \<Rightarrow> GlobalLinkedPool2 \<times> sys \<Rightarrow> GlobalLinkedPool2 \<times> sys" where
  "deallocate_G2 t_ptr = (\<lambda>(g, s).
     (let h = mem s;
          h = h(t_ptr := 0);
          pool = t_ptr AND POOL_MASK (lg s);
          h = (if h (head_next_G2 pool) = 0 then h(head_next_G2 pool := t_ptr)
               else (let h = h(t_ptr := h (head_next_G2 pool))
                     in h(head_next_G2 pool := t_ptr)));
          newSize = h (sizeOfPool pool) - 1;
          h = h(sizeOfPool pool := newSize)
      in if newSize = 0 then
           (let freePools = pool_remove pool (m_freePools_G2 g)
            in (g\<lparr>m_freePools_G2 := freePools, m_freePool_G2 := pool_first freePools\<rparr>,
                sys_free pool (s\<lparr>mem := h\<rparr>)))
         else
           (let g = g\<lparr>m_freePool_G2 := pool\<rparr>
            in if newSize = m_poolSize_G2 g - 1 then
                 (g\<lparr>m_freePools_G2 := pool_insert pool (m_freePools_G2 g)\<rparr>, s\<lparr>mem := h\<rparr>)
               else (g, s\<lparr>mem := h\<rparr>))))"

subsection \<open>The dispatcher of the first version of \<open>custom_new_delete2.h\<close>\<close>

text \<open>
  \<open>__allocators\<close> is a vector of pointers to pool sets, null until the first request
  of the size; \<open>operator[]\<close> outside the vector is the fault \<open>OutOfRange\<close>.  The
  system under the pool sets is shared; \<open>malloc_next\<close> is what \<open>std::malloc\<close>
  will return on its next calls, the empty list and 0 for \<open>nullptr\<close>.  The
  constructor of a new pool set runs at the address \<open>malloc\<close> returned, which is
  not tested: for \<open>nullptr\<close> it is the fault \<open>NullDeref\<close>.
\<close>

record dispatcher_G2 =
  allocators :: "GlobalLinkedPool2 option list"
  pools_sys :: sys
  malloc_next :: "addr list"

definition custom_new_no_throw_G2 :: "size_t \<Rightarrow> dispatcher_G2 \<Rightarrow> fault + (addr \<times> dispatcher_G2)" where
  "custom_new_no_throw_G2 sz d =
     (if sz > threshold then
        (case malloc_next d of
           [] \<Rightarrow> Inr (0, d)
         | a # as \<Rightarrow> Inr (a, d\<lparr>malloc_next := as\<rparr>))
      else
        (let remainder = sz AND ptr_mod;
             sz = (if remainder = 0 then sz else (sz + ptr_mod) AND NOT ptr_mod);
             index = unat (getAllocatorsIndex_G2 sz)
         in if \<not> index < length (allocators d) then Inl OutOfRange
            else
              (case allocators d ! index of
                 Some poolAlloc \<Rightarrow>
                   (case allocate_G2 (poolAlloc, pools_sys d) of
                      Inl f \<Rightarrow> Inl f
                    | Inr (p, poolAlloc, s) \<Rightarrow>
                        Inr (p, d\<lparr>allocators := (allocators d)[index := Some poolAlloc],
                                  pools_sys := s\<rparr>))
               | None \<Rightarrow>
                   (case malloc_next d of
                      [] \<Rightarrow> Inl NullDeref
                    | a # as \<Rightarrow>
                        if a = 0 then Inl NullDeref
                        else
                          (let d = d\<lparr>malloc_next := as\<rparr>;
                               newPool = GlobalLinkedPool2_new (lg (pools_sys d)) sz
                           in case allocate_G2 (newPool, pools_sys d) of
                                Inl f \<Rightarrow> Inl f
                              | Inr (p, newPool, s) \<Rightarrow>
                                  Inr (p, d\<lparr>allocators :=
                                               (allocators d)[index := Some newPool],
                                            pools_sys := s\<rparr>))))))"

subsection \<open>Slots, free list and invariant\<close>

text \<open>
  The same notions for \<open>GlobalLinkedPool2\<close>: the slots of a page, its free list, the
  slots in use, and the invariant of the pool set.
\<close>

definition slot_addrs_G2 :: "GlobalLinkedPool2 \<Rightarrow> addr \<Rightarrow> addr list" where
  "slot_addrs_G2 g pool =
     chain (pool + sizeof_PoolHeaderG2) (m_sizeOfObjects g) (unat (m_poolSize_G2 g))"

definition pool_free_list_G2 :: "GlobalLinkedPool2 \<Rightarrow> heap \<Rightarrow> addr \<Rightarrow> addr list" where
  "pool_free_list_G2 g h pool = free_list (Suc (unat (m_poolSize_G2 g))) h (h (head_next_G2 pool))"

definition pool_inv_G2 :: "GlobalLinkedPool2 \<Rightarrow> heap \<Rightarrow> addr \<Rightarrow> bool" where
  "pool_inv_G2 g h pool =
     (let fl = pool_free_list_G2 g h pool
      in path h (h (head_next_G2 pool)) fl \<and> distinct fl
         \<and> set fl \<subseteq> set (slot_addrs_G2 g pool)
         \<and> unat (h (sizeOfPool pool)) + length fl = unat (m_poolSize_G2 g))"

definition allocated_G2 :: "GlobalLinkedPool2 \<Rightarrow> heap \<Rightarrow> addr \<Rightarrow> addr set" where
  "allocated_G2 g h pool = set (slot_addrs_G2 g pool) - set (pool_free_list_G2 g h pool)"

definition live_slots_G2 :: "GlobalLinkedPool2 \<times> sys \<Rightarrow> addr set" where
  "live_slots_G2 = (\<lambda>(g, s). \<Union>pool\<in>live s. allocated_G2 g (mem s) pool)"

definition g2_geom :: "nat \<Rightarrow> GlobalLinkedPool2 \<Rightarrow> bool" where
  "g2_geom n g =
     (n < 64 \<and> 8 \<le> unat (m_sizeOfObjects g) \<and> 1 \<le> unat (m_poolSize_G2 g)
      \<and> 32 + unat (m_poolSize_G2 g) * unat (m_sizeOfObjects g) \<le> 2 ^ n)"

definition pools_inv_G2 :: "addr set \<Rightarrow> GlobalLinkedPool2 \<times> sys \<Rightarrow> bool" where
  "pools_inv_G2 fresh = (\<lambda>(g, s).
     g2_geom (lg s) g \<and> finite (live s) \<and> m_freePools_G2 g \<subseteq> live s
     \<and> (if m_freePools_G2 g = {} then m_freePool_G2 g = 0 else m_freePool_G2 g \<in> m_freePools_G2 g)
     \<and> (\<forall>pool\<in>live s.
           pool \<noteq> 0 \<and> page_aligned (lg s) pool \<and> pool_inv_G2 g (mem s) pool
           \<and> (pool \<notin> fresh \<longrightarrow> mem s (sizeOfPool pool) \<noteq> 0)
           \<and> (pool \<in> m_freePools_G2 g \<longleftrightarrow> mem s (sizeOfPool pool) \<noteq> m_poolSize_G2 g)))"

definition g2_inv :: "GlobalLinkedPool2 \<times> sys \<Rightarrow> bool" where
  "g2_inv = pools_inv_G2 {}"

definition slot_off_G2 :: "GlobalLinkedPool2 \<Rightarrow> nat \<Rightarrow> nat" where
  "slot_off_G2 g k = 32 + k * unat (m_sizeOfObjects g)"

definition pool_abs_G2 :: "GlobalLinkedPool2 \<Rightarrow> heap \<Rightarrow> addr \<Rightarrow> addr list \<Rightarrow> bool" where
  "pool_abs_G2 g h pool fl =
     (path h (h (head_next_G2 pool)) fl \<and> distinct fl \<and> set fl \<subseteq> set (slot_addrs_G2 g pool)
      \<and> unat (h (sizeOfPool pool)) + length fl = unat (m_poolSize_G2 g))"

subsection \<open>Calls of a client\<close>

text \<open>
  One call of a client on a \<open>GlobalLinkedPool2\<close>: \<open>allocate()\<close>, or \<open>deallocate(p)\<close>.
  The call \<open>deallocate(p)\<close> is legal for a slot \<open>p\<close> that is allocated; a call of
  \<open>allocate()\<close> needs the page that the system hands out next, if any, to be aligned
  and not in use.
\<close>

datatype request = Allocate | Deallocate addr

definition step_G2 ::
  "request \<Rightarrow> GlobalLinkedPool2 \<times> sys \<Rightarrow> fault + (GlobalLinkedPool2 \<times> sys)" where
  "step_G2 r st =
     (case r of
        Allocate \<Rightarrow> (case allocate_G2 st of Inl f \<Rightarrow> Inl f | Inr (p, st') \<Rightarrow> Inr st')
      | Deallocate p \<Rightarrow> Inr (deallocate_G2 p st))"

definition legal_G2 :: "request \<Rightarrow> GlobalLinkedPool2 \<times> sys \<Rightarrow> bool" where
  "legal_G2 r st =
     (case r of
        Allocate \<Rightarrow> next_page_ok (snd st)
      | Deallocate p \<Rightarrow> p \<in> live_slots_G2 st)"

definition ex_g2 :: GlobalLinkedPool2 where
  "ex_g2 = GlobalLinkedPool2_new 12 1000"

subsection \<open>The size field of the page headers\<close>

text \<open>
  Every page of a pool set has the object size of the pool set in the field
  \<open>sizeOfObjects\<close> of its header.
\<close>

definition hdr_inv :: "GlobalLinkedPool2 \<times> sys \<Rightarrow> bool" where
  "hdr_inv = (\<lambda>(g, s). \<forall>pool\<in>live s. mem s (sizeOfObjects pool) = m_sizeOfObjects g)"


text \<open>
  The dispatcher of the first version of \<open>custom_new_delete2.h\<close> at its start:
  \<open>__allocators(__threshold >> __logOfVoid)\<close>, 16 null pointers.
\<close>

definition dispatcher_G2_init :: "sys \<Rightarrow> addr list \<Rightarrow> dispatcher_G2" where
  "dispatcher_G2_init s ms =
     \<lparr>allocators = replicate (unat (drop_bit logOfVoid threshold)) None,
      pools_sys = s, malloc_next = ms\<rparr>"

section \<open>More states of the process seen by \<open>custom_new_delete.cpp\<close>\<close>





section \<open>Properties of the dispatcher\<close>

subsection \<open>Word arithmetic of the normalisation\<close>

lemma and_not_mask_eq: "(x::'a::len word) AND NOT (mask n) = push_bit n (drop_bit n x)"
  by (rule bit_eqI) (auto simp: bit_simps)

lemma seven_mask: "(7::size_t) = mask 3"
  by (simp add: mask_eq_exp_minus_1)

lemma unat_and_7: "unat ((t::size_t) AND 7) = unat t mod 8"
proof -
  have "t AND 7 = take_bit 3 t"
    by (simp only: seven_mask take_bit_eq_mask)
  then have "unat (t AND 7) = take_bit 3 (unat t)"
    by (simp only: unsigned_take_bit_eq)
  then show ?thesis
    by (simp add: take_bit_eq_mod)
qed

lemma unat_and_not_7: "unat ((t::size_t) AND NOT 7) = (unat t div 8) * 8"
proof -
  have "unat (push_bit 3 (drop_bit 3 t)) = take_bit 64 (push_bit 3 (drop_bit 3 (unat t)))"
    by (simp add: unsigned_push_bit_eq unat_drop_bit_eq)
  also have "\<dots> = push_bit 3 (drop_bit 3 (unat t))"
  proof (rule take_bit_nat_eq_self)
    have "unat t < 2 ^ 64" using unsigned_less [of t] by simp
    then show "push_bit 3 (drop_bit 3 (unat t)) < 2 ^ 64"
      by (simp add: push_bit_eq_mult drop_bit_eq_div)
  qed
  finally have "unat (push_bit 3 (drop_bit 3 t)) = (unat t div 8) * 8"
    by (simp add: push_bit_eq_mult drop_bit_eq_div)
  then show ?thesis
    by (simp only: seven_mask and_not_mask_eq)
qed

lemma unat_and_minus_8: "unat ((t::size_t) AND - 8) = (unat t div 8) * 8"
  using unat_and_not_7 [of t] by simp

lemma normalize_size_round_up:
  "normalize_size t a = round_up t + (if mod_sz (round_up t) a = 0 then 0 else sizeof_voidp)"
  by (simp add: normalize_size_def round_up_def Let_def)

lemma unat_round_up:
  assumes "t \<le> threshold"
  shows "unat (round_up t) = ((unat t + 7) div 8) * 8"
proof -
  have le: "unat t \<le> 128"
    using assms by (simp add: threshold_def word_le_nat_alt)
  have plus: "unat (t + 7) = unat t + 7"
    using le by (simp add: unat_word_ariths)
  show ?thesis
  proof (cases "t AND 7 = 0")
    case True
    then have "unat (t AND 7) = 0" by simp
    then have "unat t mod 8 = 0" by (simp add: unat_and_7)
    then have "((unat t + 7) div 8) * 8 = unat t" by presburger
    with True show ?thesis by (simp add: round_up_def ptr_mod_def sizeof_voidp_def)
  next
    case False
    then show ?thesis
      by (simp add: round_up_def ptr_mod_def sizeof_voidp_def unat_and_minus_8 plus)
  qed
qed

lemma round_up_128:
  assumes "unat (round_up t) = 128"
  shows "round_up t = 128"
proof -
  have "of_nat (unat (round_up t)) = (of_nat 128 :: size_t)"
    using assms by simp
  then show ?thesis by simp
qed

lemma small_path_bounds:
  assumes "t \<le> threshold" "t \<noteq> 0" "a \<in> {1, 2, 4, 8, 16, 32, 64, 128}"
  shows "8 \<le> unat (normalize_size t a) \<and> unat (normalize_size t a) \<le> 128
         \<and> unat (normalize_size t a) mod 8 = 0"
proof -
  let ?r = "round_up t"
  have le: "unat t \<le> 128"
    using assms(1) by (simp add: threshold_def word_le_nat_alt)
  have pos: "0 < unat t"
    using assms(2) by (simp add: unat_gt_0)
  have r: "unat ?r = ((unat t + 7) div 8) * 8"
    by (rule unat_round_up [OF assms(1)])
  have r8: "8 \<le> unat ?r" and r128: "unat ?r \<le> 128" and rmod: "unat ?r mod 8 = 0"
    using le pos unfolding r by presburger+
  show ?thesis
  proof (cases "mod_sz ?r a = 0")
    case True
    then show ?thesis using r8 r128 rmod by (simp add: normalize_size_round_up)
  next
    case False
    have "unat ?r \<noteq> 128"
    proof
      assume "unat ?r = 128"
      then have "?r = 128" by (rule round_up_128)
      then have "mod_sz ?r a = 0" using assms(3) by (auto simp: mod_sz_def)
      with False show False by simp
    qed
    with r128 rmod have r120: "unat ?r \<le> 120" by presburger
    then have "unat (?r + 8) = unat ?r + 8" by (simp add: unat_word_ariths)
    with False show ?thesis using r8 r120 rmod
      by (simp add: normalize_size_round_up sizeof_voidp_def)
  qed
qed

lemma getPool_ok:
  assumes "8 \<le> unat n" "unat n \<le> 128"
  shows "getPool n = Inr (drop_bit logOfVoid n - 1) \<and> drop_bit logOfVoid n - 1 < num_pools"
proof -
  have d: "unat (drop_bit 3 n) = unat n div 8"
    by (simp only: unat_drop_bit_eq) (simp add: drop_bit_eq_div)
  have d1: "1 \<le> unat (drop_bit 3 n)" and d16: "unat (drop_bit 3 n) \<le> 16"
    using assms unfolding d by presburger+
  have "unat (drop_bit 3 n - 1) = unat (drop_bit 3 n) - 1"
    using d1 by (simp add: unat_sub word_le_nat_alt)
  with d1 d16 have "unat (drop_bit 3 n - 1) < 16" by simp
  then have "drop_bit 3 n - 1 < (16::size_t)" by (simp add: word_less_nat_alt)
  then show ?thesis
    by (simp add: getPool_def logOfVoid_def num_pools_def threshold_def Let_def)
qed

subsection \<open>The index of the small path\<close>

text \<open>
  For a request of 1 to 128 bytes whose alignment is a power of two up to 128, the
  normalised size is a multiple of the pointer size between 8 and the threshold,
  \<open>getPool\<close> finds its index inside the array of pool sets, and
  \<open>custom_new_no_throw\<close> does not leave the array.
\<close>

lemma small_path_index_valid:
  assumes "t_size \<le> threshold"
    and "t_size \<noteq> 0"
    and "t_alignment \<in> {1, 2, 4, 8, 16, 32, 64, 128}"
  shows "sizeof_voidp \<le> normalize_size t_size t_alignment
         \<and> normalize_size t_size t_alignment \<le> threshold
         \<and> normalize_size t_size t_alignment AND ptr_mod = 0
         \<and> (\<exists>index. getPool (normalize_size t_size t_alignment) = Inr index
                \<and> index < num_pools)
         \<and> custom_new_no_throw t_size t_alignment w \<noteq> Inl OutOfRange"
proof -
  let ?n = "normalize_size t_size t_alignment"
  have b: "8 \<le> unat ?n" "unat ?n \<le> 128" "unat ?n mod 8 = 0"
    using small_path_bounds [OF assms] by simp_all
  have lo: "sizeof_voidp \<le> ?n"
    using b(1) by (simp add: sizeof_voidp_def word_le_nat_alt)
  have hi: "?n \<le> threshold"
    using b(2) by (simp add: threshold_def word_le_nat_alt)
  have "unat (?n AND 7) = 0"
    using b(3) by (simp add: unat_and_7)
  then have al: "?n AND ptr_mod = 0"
    by (simp add: ptr_mod_def sizeof_voidp_def unat_eq_0)
  have gp: "getPool ?n = Inr (drop_bit logOfVoid ?n - 1)"
    and idx: "drop_bit logOfVoid ?n - 1 < num_pools"
    using getPool_ok [OF b(1) b(2)] by simp_all
  have "\<not> threshold < t_size"
    using assms(1) by simp
  then have "custom_new_no_throw t_size t_alignment w \<noteq> Inl OutOfRange"
    by (simp add: custom_new_no_throw_def getPool_allocate_def gp split: list.splits)
  with lo hi al gp idx show ?thesis by simp
qed

lemma small_path_new:
  "\<not> threshold < t \<Longrightarrow>
     custom_new_no_throw t a w = Inl OutOfRange \<longleftrightarrow> getPool (normalize_size t a) = Inl OutOfRange"
  by (auto simp: custom_new_no_throw_def getPool_allocate_def getPool_def Let_def
      split: list.splits if_splits)

text \<open>
  C4.  A request of 1 to 128 bytes takes the small path, and it leaves the array of
  pool sets exactly when its size is above 120 and its alignment does not divide 128.
  The code compares the size with the threshold before it adds a pointer word for the
  alignment: such a request is rounded up to 128 bytes and then becomes 136 bytes, a
  size class above the threshold, for which \<open>getPool\<close> is asked for index 16 of
  an array of 16 pool sets.  For every other request of 1 to 128 bytes the index is
  inside the array.
\<close>

theorem small_path_index_out_of_range:
  assumes "t_size \<le> threshold" and "t_size \<noteq> 0"
  shows "(custom_new_no_throw t_size t_alignment w = Inl OutOfRange
            \<longleftrightarrow> threshold - sizeof_voidp < t_size \<and> mod_sz threshold t_alignment \<noteq> 0)
    \<and> (threshold - sizeof_voidp < t_size \<and> mod_sz threshold t_alignment \<noteq> 0 \<longrightarrow>
          round_up t_size = threshold
          \<and> normalize_size t_size t_alignment = threshold + sizeof_voidp
          \<and> threshold < normalize_size t_size t_alignment
          \<and> getAllocatorsIndex (normalize_size t_size t_alignment) = num_pools
          \<and> getPool (normalize_size t_size t_alignment) = Inl OutOfRange)"
proof -
  let ?r = "round_up t_size" and ?n = "normalize_size t_size t_alignment"
  have le: "unat t_size \<le> 128"
    using assms(1) by (simp add: threshold_def word_le_nat_alt)
  have pos: "0 < unat t_size"
    using assms(2) by (simp add: unat_gt_0)
  have nt: "\<not> threshold < t_size" using assms(1) by simp
  have r: "unat ?r = ((unat t_size + 7) div 8) * 8"
    by (rule unat_round_up [OF assms(1)])
  have r8: "8 \<le> unat ?r" and r128: "unat ?r \<le> 128" and rmod: "unat ?r mod 8 = 0"
    using le pos unfolding r by presburger+
  have big: "threshold - sizeof_voidp < t_size \<longleftrightarrow> 120 < unat t_size"
    by (simp add: threshold_def sizeof_voidp_def word_less_nat_alt)
  have big': "120 < t_size \<longleftrightarrow> 120 < unat t_size"
    by (simp add: word_less_nat_alt)
  show ?thesis
  proof (cases "120 < unat t_size")
    case True
    then have "unat ?r = 128" using le unfolding r by presburger
    then have r128': "?r = 128" by (rule round_up_128)
    show ?thesis
    proof (cases "mod_sz threshold t_alignment = 0")
      case m: True
      then have n: "?n = 128"
        by (simp add: normalize_size_round_up r128' threshold_def)
      have "getPool ?n = Inr (drop_bit logOfVoid ?n - 1)"
        using getPool_ok [of ?n] by (simp add: n)
      then show ?thesis using m by (simp add: small_path_new [OF nt])
    next
      case m: False
      then have n: "?n = 136"
        by (simp add: normalize_size_round_up r128' threshold_def sizeof_voidp_def)
      have g: "getPool 136 = Inl OutOfRange"
        by (simp add: getPool_def logOfVoid_def num_pools_def threshold_def)
      have i: "getAllocatorsIndex 136 = num_pools"
        by (simp add: getAllocatorsIndex_def logOfVoid_def num_pools_def threshold_def
            drop_bit_eq_div)
      show ?thesis
        using m True
        by (simp add: small_path_new [OF nt] n g i big' r128' threshold_def sizeof_voidp_def)
    qed
  next
    case False
    then have r120: "unat ?r \<le> 120" using pos unfolding r by presburger
    have b: "8 \<le> unat ?n \<and> unat ?n \<le> 128"
    proof (cases "mod_sz ?r t_alignment = 0")
      case True
      then show ?thesis using r8 r120 by (simp add: normalize_size_round_up)
    next
      case False
      have "unat (?r + 8) = unat ?r + 8" using r120 by (simp add: unat_word_ariths)
      with False show ?thesis using r8 r120
        by (simp add: normalize_size_round_up sizeof_voidp_def)
    qed
    then have "getPool ?n = Inr (drop_bit logOfVoid ?n - 1)"
      using getPool_ok [of ?n] by simp
    then show ?thesis using False by (simp add: small_path_new [OF nt] big)
  qed
qed

text \<open>
  Instances: 128 bytes with alignment 256, and with the alignment 0 that the compiler
  pass of the repository hands to every call, leave the array; 128 bytes with
  alignment 16 and 120 bytes with alignment 256 do not.
\<close>

theorem small_path_index_out_of_range_witness:
  "(128::size_t) \<le> threshold \<and> (128::size_t) \<noteq> 0
   \<and> threshold - sizeof_voidp < 128 \<and> mod_sz threshold 256 \<noteq> 0
   \<and> \<not> threshold < 128
   \<and> normalize_size 128 256 = 136
   \<and> threshold < normalize_size 128 256
   \<and> getAllocatorsIndex (normalize_size 128 256) = num_pools
   \<and> getPool (normalize_size 128 256) = Inl OutOfRange
   \<and> custom_new_no_throw 128 256 oom_world = Inl OutOfRange
   \<and> custom_new_no_throw 128 0 oom_world = Inl OutOfRange
   \<and> custom_new_no_throw 128 16 oom_world \<noteq> Inl OutOfRange
   \<and> custom_new_no_throw 120 256 oom_world \<noteq> Inl OutOfRange"
proof -
  have h: "(128::size_t) \<le> threshold" "(128::size_t) \<noteq> 0" "(120::size_t) \<le> threshold"
    "(120::size_t) \<noteq> 0"
    "threshold - sizeof_voidp < 128" "\<not> threshold - sizeof_voidp < 120"
    "mod_sz threshold 256 \<noteq> 0" "mod_sz threshold 0 \<noteq> 0" "mod_sz threshold 16 = 0"
    by (simp_all add: threshold_def sizeof_voidp_def mod_sz_def)
  note A = small_path_index_out_of_range [OF h(1,2), of 256 oom_world]
    and B = small_path_index_out_of_range [OF h(1,2), of 0 oom_world]
    and C = small_path_index_out_of_range [OF h(1,2), of 16 oom_world]
    and D = small_path_index_out_of_range [OF h(3,4), of 256 oom_world]
  have n: "normalize_size 128 256 = 136"
    using A h by (simp add: threshold_def sizeof_voidp_def)
  from A B C D h n show ?thesis by (simp add: threshold_def)
qed

subsection \<open>The large path when \<open>std::malloc\<close> fails\<close>

lemma write_bytes_null: "write_bytes 0 bs w = Inl NullDeref"
  by (simp add: write_bytes_def)

text \<open>
  C3.  When \<open>std::malloc\<close> returns \<open>nullptr\<close> on the large path,
  \<open>custom_new_no_throw\<close> does not return \<open>nullptr\<close>.  The code does not test the
  result of \<open>std::malloc\<close>: it constructs the \<open>MallocHeader\<close> at the address it
  got, so a failed \<open>malloc\<close> ends in a store through \<open>nullptr\<close>, and neither
  \<open>nullptr\<close> nor \<open>std::bad_alloc\<close> reaches the caller.
\<close>

theorem large_path_malloc_null:
  assumes "threshold < t_size"
    and "fst (std_malloc (t_size + sizeof_MallocHeader) w) = 0"
  shows "custom_new_no_throw t_size t_alignment w = Inl NullDeref
         \<and> custom_new t_size t_alignment w = Inl NullDeref"
  using assms
  by (cases "std_malloc (t_size + sizeof_MallocHeader) w")
     (simp add: custom_new_no_throw_def custom_new_def write_bytes_null)

theorem large_path_malloc_null_witness:
  "threshold < 129 \<and> fst (std_malloc (129 + sizeof_MallocHeader) oom_world) = 0
   \<and> custom_new_no_throw 129 16 oom_world = Inl NullDeref
   \<and> custom_new 129 16 oom_world = Inl NullDeref"
  using large_path_malloc_null [of 129 oom_world 16]
  by (simp add: threshold_def std_malloc_def oom_world_def)

subsection \<open>Routing of \<open>custom_delete\<close>\<close>

lemma custom_delete_unfold:
  "custom_delete t_ptr w =
     (if strcmp_eq (bytes w) (t_ptr - sizeof_MallocHeader) IsThIsMaLlOcD
      then Inr (std_free (t_ptr - sizeof_MallocHeader)
                  (log_event (Read (t_ptr - sizeof_MallocHeader)) w))
      else getPool_deallocate
             (load64 (bytes w) (getPoolHeader (page_lg w) t_ptr + offsetof_sizeOfSlot)) t_ptr
             (log_event (Read (getPoolHeader (page_lg w) t_ptr))
                (log_event (Read (t_ptr - sizeof_MallocHeader)) w)))"
  by (simp add: custom_delete_def Let_def log_event_def)

lemma custom_delete_trace:
  "case custom_delete t_ptr w of
     Inl f \<Rightarrow> f = OutOfRange
   | Inr w' \<Rightarrow> Read (t_ptr - sizeof_MallocHeader) \<in> set (trace w')"
  by (simp add: custom_delete_unfold getPool_deallocate_def getPool_def std_free_def
      log_event_def Let_def split: sum.splits)

lemma custom_delete_trace_grows:
  "custom_delete t_ptr w = Inr w' \<Longrightarrow> length (trace w) < length (trace w')"
  by (auto simp add: custom_delete_unfold getPool_deallocate_def getPool_def std_free_def
      log_event_def Let_def split: sum.splits if_splits)

lemma custom_delete_neq: "custom_delete t_ptr w \<noteq> Inr w"
  using custom_delete_trace_grows [of t_ptr w w] by auto

subsection \<open>The null test of \<open>operator delete\<close>\<close>

text \<open>
  C10.  Both scalar \<open>operator delete\<close> overloads return at once for \<open>nullptr\<close>: the
  state, with its trace of reads and calls, is the one they were given, and for any
  other pointer they are \<open>custom_delete\<close>.  Both \<open>operator delete[]\<close> overloads are
  \<open>custom_delete\<close> for every pointer, \<open>nullptr\<close> included, and \<open>custom_delete\<close>
  on \<open>nullptr\<close> does read memory, 16 bytes below address 0.
\<close>

theorem operator_delete_null_guard:
  "operator_delete 0 w = Inr w
   \<and> operator_delete_nothrow 0 w = Inr w
   \<and> operator_delete t_ptr w = (if t_ptr = 0 then Inr w else custom_delete t_ptr w)
   \<and> operator_delete_nothrow t_ptr w = (if t_ptr = 0 then Inr w else custom_delete t_ptr w)
   \<and> operator_delete_array t_ptr w = custom_delete t_ptr w
   \<and> operator_delete_array_nothrow t_ptr w = custom_delete t_ptr w
   \<and> custom_delete 0 w \<noteq> Inr w
   \<and> (case custom_delete 0 w of
         Inl f \<Rightarrow> f = OutOfRange
       | Inr w' \<Rightarrow> Read (0 - sizeof_MallocHeader) \<in> set (trace w'))"
  using custom_delete_neq [of 0 w] custom_delete_trace [of 0 w]
  by (simp add: operator_delete_def operator_delete_nothrow_def operator_delete_array_def
      operator_delete_array_nothrow_def)

section \<open>Properties of \<open>LinkedPool<T>\<close>\<close>

subsection \<open>Addresses within a page\<close>

lemma unat_and_mask_eq: "unat ((t::'a::len word) AND mask n) = unat t mod 2 ^ n"

proof -
  have "unat (take_bit n t) = take_bit n (unat t)"
    by (simp only: unsigned_take_bit_eq)
  then show ?thesis
    by (simp add: take_bit_eq_mod flip: take_bit_eq_mask)

qed

lemma unat_and_not_mask_eq:
  "unat ((t::'a::len word) AND NOT (mask n)) = (unat t div 2 ^ n) * 2 ^ n"

proof -
  have "unat (push_bit n (drop_bit n t))
          = take_bit LENGTH('a) (push_bit n (drop_bit n (unat t)))"
    by (simp add: unsigned_push_bit_eq unat_drop_bit_eq)
  also have "\<dots> = push_bit n (drop_bit n (unat t))"
  proof (rule take_bit_nat_eq_self)
    have "push_bit n (drop_bit n (unat t)) \<le> unat t"
      by (simp add: push_bit_eq_mult drop_bit_eq_div)
    also have "unat t < 2 ^ LENGTH('a)"
      by (rule unsigned_less)
    finally show "push_bit n (drop_bit n (unat t)) < 2 ^ LENGTH('a)" .
  qed
  finally have "unat (push_bit n (drop_bit n t)) = (unat t div 2 ^ n) * 2 ^ n"
    by (simp add: push_bit_eq_mult drop_bit_eq_div)
  then show ?thesis
    by (simp only: and_not_mask_eq)

qed

lemma getPoolMask_eq: "getPoolMask n = NOT (mask n)"
  by (simp add: getPoolMask_def getPageSize_def mask_eq_exp_minus_1)

lemma page_aligned_unat: "page_aligned n b \<longleftrightarrow> unat b mod 2 ^ n = 0"

proof -
  have "page_aligned n b \<longleftrightarrow> unat (b AND mask n) = 0"
    by (simp add: page_aligned_def getPageSize_def mask_eq_exp_minus_1 unat_eq_0)
  then show ?thesis by (simp add: unat_and_mask_eq)

qed

lemma dvd_room:
  assumes "(d::nat) dvd a" "d dvd c" "a < c"
  shows "a + d \<le> c"

proof -
  obtain k where k: "a = d * k" using assms(1) by (auto simp: dvd_def)
  obtain m where m: "c = d * m" using assms(2) by (auto simp: dvd_def)
  have "k < m" using assms(3) unfolding k m by simp
  then have "Suc k \<le> m" by simp
  then have "d * Suc k \<le> d * m" by (rule mult_le_mono2)
  then show ?thesis unfolding k m by simp

qed

lemma aligned_room:
  assumes "n < 64" "page_aligned n b"
  shows "unat b + 2 ^ n \<le> 2 ^ 64"

proof -
  have "(2::nat) ^ n dvd unat b"
    using assms(2) by (simp add: page_aligned_unat mod_eq_0_iff_dvd)
  moreover have "(2::nat) ^ n dvd 2 ^ 64"
    using assms(1) by (intro le_imp_power_dvd) simp
  moreover have "unat b < 2 ^ 64"
    using unsigned_less [of b] by simp
  ultimately show ?thesis by (rule dvd_room)

qed

lemma unat_page_offset:
  assumes "n < 64" "page_aligned n b" "off < 2 ^ n"
  shows "unat (b + of_nat off) = unat b + off"

proof -
  have "unat b + off < 2 ^ 64"
    using aligned_room [OF assms(1,2)] assms(3) by simp
  moreover have "off < 2 ^ 64"
    using aligned_room [OF assms(1,2)] assms(3) by simp
  ultimately show ?thesis
    by (simp add: unat_word_ariths unat_of_nat)

qed

lemma page_of_offset:
  assumes "n < 64" "page_aligned n b" "off < 2 ^ n"
  shows "(b + of_nat off) AND getPoolMask n = b"

proof -
  have "unat b mod 2 ^ n = 0"
    using assms(2) by (simp add: page_aligned_unat)
  then have "(unat b + off) div 2 ^ n * 2 ^ n = unat b"
    using assms(3) by (auto simp: mod_eq_0_iff_dvd dvd_def)
  then have "unat ((b + of_nat off) AND getPoolMask n) = unat b"
    by (simp add: getPoolMask_eq unat_and_not_mask_eq unat_page_offset [OF assms])
  then show ?thesis
    by (simp add: word_unat_eq_iff)

qed

lemma page_offset_eq_iff:
  assumes "n < 64" "page_aligned n b" "page_aligned n b'" "off < 2 ^ n" "off' < 2 ^ n"
  shows "b + of_nat off = b' + of_nat off' \<longleftrightarrow> b = b' \<and> off = off'"

proof
  assume eq: "b + of_nat off = b' + of_nat off'"
  then have "(b + of_nat off) AND getPoolMask n = (b' + of_nat off') AND getPoolMask n"
    by simp
  then have b: "b = b'"
    by (simp add: page_of_offset assms)
  have "unat (b + of_nat off) = unat (b' + of_nat off')"
    using eq by simp
  then have "off = off'"
    unfolding b
    by (simp add: unat_page_offset [OF assms(1) assms(3) assms(4)]
        unat_page_offset [OF assms(1) assms(3) assms(5)])
  with b show "b = b' \<and> off = off'" by simp

qed simp

subsection \<open>The slots laid out by the constructor\<close>

lemma length_chain [simp]: "length (chain f s n) = n"
  by (induction n arbitrary: f) simp_all

lemma chain_nth: "k < n \<Longrightarrow> chain f s n ! k = f + of_nat k * s"

proof (induction n arbitrary: f k)
  case 0
  then show ?case by simp

next
  case (Suc n)
  show ?case
  proof (cases k)
    case 0
    then show ?thesis by simp
  next
    case (Suc j)
    with Suc.prems have "j < n" by simp
    then have "chain (f + s) s n ! j = f + s + of_nat j * s" by (rule Suc.IH)
    with Suc show ?thesis by (simp add: algebra_simps)
  qed

qed

lemma chain_map: "chain f s n = map (\<lambda>k. f + of_nat k * s) [0..<n]"
  by (rule nth_equalityI) (simp_all add: chain_nth)

lemma set_chain: "set (chain f s n) = (\<lambda>k. f + of_nat k * s) ` {..<n}"
  by (simp add: chain_map atLeast_upt)

lemma chain_Suc_snoc: "chain f s (Suc n) = chain f s n @ [f + of_nat n * s]"
  by (simp only: chain_map) simp

subsection \<open>Free lists as paths in the heap\<close>

lemma path_fun_upd: "a \<notin> set xs \<Longrightarrow> path (h(a := v)) p xs = path h p xs"
  by (induction xs arbitrary: p) auto

lemma path_cong: "(\<And>x. x \<in> set xs \<Longrightarrow> h' x = h x) \<Longrightarrow> path h' p xs = path h p xs"
  by (induction xs arbitrary: p) auto

lemma path_nonnull: "path h p xs \<Longrightarrow> 0 \<notin> set xs"
  by (induction xs arbitrary: p) auto

lemma path_unique: "path h p xs \<Longrightarrow> path h p ys \<Longrightarrow> xs = ys"

proof (induction xs arbitrary: p ys)
  case Nil
  then show ?case by (cases ys) auto

next
  case (Cons x xs)
  then show ?case by (cases ys) auto

qed

lemma path_free_list: "path h p xs \<Longrightarrow> length xs < n \<Longrightarrow> free_list n h p = xs"

proof (induction xs arbitrary: p n)
  case Nil
  then show ?case by (cases n) auto

next
  case (Cons x xs)
  then show ?case by (cases n) auto

qed

lemma free_list_path: "length (free_list n h p) < n \<Longrightarrow> path h p (free_list n h p)"
  by (induction n arbitrary: p) (auto split: if_splits)

lemma free_list_cong:
  "(\<And>x. x \<in> set (free_list n h p) \<Longrightarrow> h' x = h x) \<Longrightarrow> free_list n h' p = free_list n h p"

proof (induction n arbitrary: p)
  case 0
  then show ?case by simp

next
  case (Suc n)
  show ?case
  proof (cases "p = 0")
    case True
    then show ?thesis by simp
  next
    case False
    then have hp: "h' p = h p" using Suc.prems [of p] by simp
    have "free_list n h' (h p) = free_list n h (h p)"
      using Suc.prems False by (intro Suc.IH) simp
    with False hp show ?thesis by simp
  qed

qed

subsection \<open>The loop of \<open>constructPoolHeader\<close>\<close>

lemma link_slots_fst: "fst (link_slots n f s h) = f + of_nat n * s"
  by (induction n arbitrary: f h) (simp_all add: algebra_simps)

lemma link_slots_frame:
  "x \<notin> set (chain f s n) \<Longrightarrow> snd (link_slots n f s h) x = h x"
  by (induction n arbitrary: f h) auto

lemma link_slots_path:
  assumes "distinct (chain f s (Suc n))" "0 \<notin> set (chain f s (Suc n))"
  shows "path ((snd (link_slots n f s h))(fst (link_slots n f s h) := 0)) f (chain f s (Suc n))"
  using assms

proof (induction n arbitrary: f h)
  case 0
  then show ?case by simp

next
  case (Suc n)
  let ?h1 = "h(f := f + s)"
  let ?r = "link_slots n (f + s) s ?h1"
  have d: "distinct (chain (f + s) s (Suc n))" and z: "0 \<notin> set (chain (f + s) s (Suc n))"
    and fz: "f \<noteq> 0" and fn: "f \<notin> set (chain (f + s) s (Suc n))"
    using Suc.prems by auto
  have IH: "path ((snd ?r)(fst ?r := 0)) (f + s) (chain (f + s) s (Suc n))"
    using d z by (rule Suc.IH)
  define H where "H = (snd ?r)(fst ?r := 0)"
  have r: "link_slots (Suc n) f s h = ?r" by simp
  have c: "chain f s (Suc (Suc n)) = f # chain (f + s) s (Suc n)" by simp
  have "fst ?r = f + s + of_nat n * s" by (rule link_slots_fst)
  then have "fst ?r \<in> set (chain (f + s) s (Suc n))"
    by (simp only: chain_Suc_snoc) simp
  with fn have ne: "fst ?r \<noteq> f" by auto
  have "f \<notin> set (chain (f + s) s n)"
    using fn by (simp only: chain_Suc_snoc) simp
  then have "snd ?r f = ?h1 f" by (rule link_slots_frame)
  then have Hf: "H f = f + s" using ne by (simp add: H_def)
  from IH have "path H (f + s) (chain (f + s) s (Suc n))"
    by (simp only: H_def)
  then have "path H (H f) (chain (f + s) s (Suc n))"
    by (simp only: Hf)
  with fz have "path H f (f # chain (f + s) s (Suc n))"
    by (simp only: path.simps simp_thms)
  then show ?case
    unfolding H_def by (simp only: r c)

qed

subsection \<open>Slots of a page\<close>

lemma slot_addrs_map:
  "slot_addrs lp b = map (\<lambda>k. b + of_nat (slot_off lp k)) [0..<unat (m_poolSize lp)]"
  by (simp add: slot_addrs_def chain_map slot_off_def sizeof_PoolHeader_def algebra_simps)

lemma slot_off_bound:
  assumes "lp_geom n lp" "k < unat (m_poolSize lp)"
  shows "slot_off lp k + unat (m_slotSize lp) \<le> 2 ^ n"

proof -
  have "Suc k \<le> unat (m_poolSize lp)" using assms(2) by simp
  then have "Suc k * unat (m_slotSize lp) \<le> unat (m_poolSize lp) * unat (m_slotSize lp)"
    by (rule mult_le_mono1)
  then show ?thesis using assms(1) by (simp add: lp_geom_def slot_off_def)

qed

lemma slot_off_less:
  assumes "lp_geom n lp" "k < unat (m_poolSize lp)"
  shows "slot_off lp k < 2 ^ n"
  using slot_off_bound [OF assms] assms(1) by (simp add: lp_geom_def)

lemma slot_off_inj:
  assumes "lp_geom n lp" "slot_off lp j = slot_off lp k"
  shows "j = k"
  using assms by (simp add: lp_geom_def slot_off_def)

lemma in_slot_addrs:
  "x \<in> set (slot_addrs lp b) \<longleftrightarrow> (\<exists>k < unat (m_poolSize lp). x = b + of_nat (slot_off lp k))"
  by (auto simp: slot_addrs_map)

lemma geom_page_large:
  assumes "lp_geom n lp"
  shows "(16::nat) < 2 ^ n"

proof -
  have "1 * 8 \<le> unat (m_poolSize lp) * unat (m_slotSize lp)"
    using assms by (intro mult_le_mono) (simp_all add: lp_geom_def)
  then show ?thesis using assms by (simp add: lp_geom_def)

qed

lemma page_of_slot:
  assumes "lp_geom n lp" "page_aligned n b" "x \<in> set (slot_addrs lp b)"
  shows "x AND getPoolMask n = b"

proof -
  from assms(3) obtain k where k: "k < unat (m_poolSize lp)" "x = b + of_nat (slot_off lp k)"
    by (auto simp: in_slot_addrs)
  have "n < 64" using assms(1) by (simp add: lp_geom_def)
  then show ?thesis
    unfolding k(2) using assms(2) slot_off_less [OF assms(1) k(1)] by (rule page_of_offset)

qed

lemma page_of_header:
  assumes "lp_geom n lp" "page_aligned n b"
  shows "occupiedSlots b AND getPoolMask n = b" "head_next b AND getPoolMask n = b"

proof -
  have n: "n < 64" using assms(1) by (simp add: lp_geom_def)
  have "(0::nat) < 2 ^ n" "(8::nat) < 2 ^ n"
    using geom_page_large [OF assms(1)] by simp_all
  from page_of_offset [OF n assms(2) this(1)] page_of_offset [OF n assms(2) this(2)]
  show "occupiedSlots b AND getPoolMask n = b" "head_next b AND getPoolMask n = b"
    by (simp_all add: occupiedSlots_def head_next_def)

qed

lemma distinct_slot_addrs:
  assumes "lp_geom n lp" "page_aligned n b"
  shows "distinct (slot_addrs lp b)"

proof -
  have n: "n < 64" using assms(1) by (simp add: lp_geom_def)
  have "inj_on (\<lambda>k. b + of_nat (slot_off lp k)) {..<unat (m_poolSize lp)}"
  proof (rule inj_onI)
    fix j k
    assume j: "j \<in> {..<unat (m_poolSize lp)}" and k: "k \<in> {..<unat (m_poolSize lp)}"
      and eq: "b + of_nat (slot_off lp j) = b + of_nat (slot_off lp k)"
    have "slot_off lp j = slot_off lp k"
      using eq page_offset_eq_iff [OF n assms(2) assms(2), of "slot_off lp j" "slot_off lp k"]
        slot_off_less [OF assms(1)] j k by simp
    then show "j = k" by (rule slot_off_inj [OF assms(1)])
  qed
  then show ?thesis
    by (simp add: slot_addrs_map distinct_map atLeast_upt)

qed

lemma header_not_slot:
  assumes "lp_geom n lp" "page_aligned n b"
  shows "occupiedSlots b \<notin> set (slot_addrs lp b)" "head_next b \<notin> set (slot_addrs lp b)"

proof -
  have n: "n < 64" using assms(1) by (simp add: lp_geom_def)
  have l: "(0::nat) < 2 ^ n" "(8::nat) < 2 ^ n"
    using geom_page_large [OF assms(1)] by simp_all
  { fix k assume k: "k < unat (m_poolSize lp)"
    have "b + of_nat 0 \<noteq> b + of_nat (slot_off lp k)"
      using page_offset_eq_iff [OF n assms(2) assms(2) l(1) slot_off_less [OF assms(1) k]]
      by (simp add: slot_off_def)
    moreover have "b + of_nat 8 \<noteq> b + of_nat (slot_off lp k)"
      using page_offset_eq_iff [OF n assms(2) assms(2) l(2) slot_off_less [OF assms(1) k]]
      by (simp add: slot_off_def)
    ultimately have "b \<noteq> b + of_nat (slot_off lp k)" "b + 8 \<noteq> b + of_nat (slot_off lp k)"
      by simp_all }
  then show "occupiedSlots b \<notin> set (slot_addrs lp b)" "head_next b \<notin> set (slot_addrs lp b)"
    by (auto simp: in_slot_addrs occupiedSlots_def head_next_def)

qed

lemma slot_nonnull:
  assumes "lp_geom n lp" "page_aligned n b" "b \<noteq> 0"
  shows "0 \<notin> set (slot_addrs lp b)"

proof
  assume "0 \<in> set (slot_addrs lp b)"
  then have "0 AND getPoolMask n = b"
    by (rule page_of_slot [OF assms(1,2)])
  with assms(3) show False by simp

qed

lemma length_slot_addrs [simp]: "length (slot_addrs lp b) = unat (m_poolSize lp)"
  by (simp add: slot_addrs_def)

subsection \<open>The pool invariant, with the list named\<close>

lemma pool_abs_free_list:
  assumes "pool_abs lp h b fl"
  shows "pool_free_list lp h b = fl"

proof -
  have p: "path h (h (head_next b)) fl"
    and l: "length fl < Suc (unat (m_poolSize lp))"
    using assms by (simp_all add: pool_abs_def)
  show ?thesis
    unfolding pool_free_list_def using p l by (rule path_free_list)

qed

lemma pool_inv_abs: "pool_inv lp h b \<longleftrightarrow> (\<exists>fl. pool_abs lp h b fl)"

proof
  assume "pool_inv lp h b"
  then have "pool_abs lp h b (pool_free_list lp h b)"
    by (simp add: pool_inv_def pool_abs_def Let_def)
  then show "\<exists>fl. pool_abs lp h b fl" ..

next
  assume "\<exists>fl. pool_abs lp h b fl"
  then obtain fl where fl: "pool_abs lp h b fl" ..
  then have "pool_free_list lp h b = fl" by (rule pool_abs_free_list)
  with fl show "pool_inv lp h b"
    by (simp add: pool_inv_def pool_abs_def Let_def)

qed

lemma pool_abs_allocated:
  "pool_abs lp h b fl \<Longrightarrow> allocated lp h b = set (slot_addrs lp b) - set fl"
  by (simp add: allocated_def pool_abs_free_list)

subsection \<open>What depends on the sizes only\<close>

lemma slot_addrs_cong:
  "m_headerPadding lp' = m_headerPadding lp \<Longrightarrow> m_slotSize lp' = m_slotSize lp \<Longrightarrow>
   m_poolSize lp' = m_poolSize lp \<Longrightarrow> slot_addrs lp' = slot_addrs lp"
  by (simp add: slot_addrs_def fun_eq_iff)

lemma pool_free_list_cong:
  "m_poolSize lp' = m_poolSize lp \<Longrightarrow> pool_free_list lp' = pool_free_list lp"
  by (simp add: pool_free_list_def fun_eq_iff)

lemma pool_abs_cong:
  "m_headerPadding lp' = m_headerPadding lp \<Longrightarrow> m_slotSize lp' = m_slotSize lp \<Longrightarrow>
   m_poolSize lp' = m_poolSize lp \<Longrightarrow> pool_abs lp' = pool_abs lp"
  by (simp add: pool_abs_def fun_eq_iff slot_addrs_def)

lemma allocated_cong:
  "m_headerPadding lp' = m_headerPadding lp \<Longrightarrow> m_slotSize lp' = m_slotSize lp \<Longrightarrow>
   m_poolSize lp' = m_poolSize lp \<Longrightarrow> allocated lp' = allocated lp"
  by (simp add: allocated_def fun_eq_iff slot_addrs_def pool_free_list_def)

lemma lp_geom_cong:
  "m_headerPadding lp' = m_headerPadding lp \<Longrightarrow> m_slotSize lp' = m_slotSize lp \<Longrightarrow>
   m_poolSize lp' = m_poolSize lp \<Longrightarrow> lp_geom n lp' = lp_geom n lp"
  by (simp add: lp_geom_def)

subsection \<open>One pool, on the heap\<close>

lemma unat_plus_one_less:
  assumes "unat (w::size_t) < unat (c::size_t)"
  shows "unat (w + 1) = Suc (unat w)"

proof -
  have "unat c < 2 ^ 64" using unsigned_less [of c] by simp
  with assms have "Suc (unat w) < 2 ^ 64" by linarith
  then show ?thesis by (simp add: unat_word_ariths)

qed

lemma unat_minus_one_pos:
  assumes "0 < unat (w::size_t)"
  shows "unat (w - 1) = unat w - 1"

proof -
  have "w \<noteq> 0" using assms by (simp add: unat_gt_0)
  then show ?thesis by (rule unat_minus_one)

qed

lemma occ_neq_head: "occupiedSlots b \<noteq> head_next b"
  by (simp add: occupiedSlots_def head_next_def)

lemma pool_abs_frame:
  assumes "pool_abs lp h b fl"
    and "h' (occupiedSlots b) = h (occupiedSlots b)"
    and "h' (head_next b) = h (head_next b)"
    and "\<And>x. x \<in> set fl \<Longrightarrow> h' x = h x"
  shows "pool_abs lp h' b fl"

proof -
  have "path h' (h (head_next b)) fl = path h (h (head_next b)) fl"
    using assms(4) by (rule path_cong)
  with assms(1-3) show ?thesis by (simp add: pool_abs_def)

qed

lemma pool_abs_other_page:
  assumes g: "lp_geom n lp" and al: "page_aligned n b'" and ne: "b' \<noteq> b"
    and so: "same_outside n b h h'" and abs: "pool_abs lp h b' fl"
  shows "pool_abs lp h' b' fl"

proof (rule pool_abs_frame [OF abs])
  show "h' (occupiedSlots b') = h (occupiedSlots b')"
    using so page_of_header(1) [OF g al] ne by (simp add: same_outside_def)
  show "h' (head_next b') = h (head_next b')"
    using so page_of_header(2) [OF g al] ne by (simp add: same_outside_def)
  fix x assume "x \<in> set fl"
  then have "x \<in> set (slot_addrs lp b')" using abs by (auto simp: pool_abs_def)
  then have "x AND getPoolMask n = b'" by (rule page_of_slot [OF g al])
  then show "h' x = h x" using so ne by (simp add: same_outside_def)

qed

lemma pool_abs_pop:
  assumes g: "lp_geom n lp" and al: "page_aligned n b" and abs: "pool_abs lp h b (x # xs)"
  shows "pool_abs lp (h(head_next b := h x, occupiedSlots b := h (occupiedSlots b) + 1)) b xs"

proof -
  let ?h' = "h(head_next b := h x, occupiedSlots b := h (occupiedSlots b) + 1)"
  have sub: "set xs \<subseteq> set (slot_addrs lp b)" and d: "distinct xs"
    and p: "path h (h x) xs"
    and occ: "unat (h (occupiedSlots b)) + Suc (length xs) = unat (m_poolSize lp)"
    using abs by (auto simp: pool_abs_def)
  have nh: "head_next b \<notin> set xs" and no: "occupiedSlots b \<notin> set xs"
    using header_not_slot [OF g al] sub by auto
  have "path ?h' (h x) xs"
    using p nh no by (simp add: path_fun_upd)
  moreover have "?h' (head_next b) = h x"
    using occ_neq_head [of b] by simp
  moreover have "unat (h (occupiedSlots b) + 1) = Suc (unat (h (occupiedSlots b)))"
  proof (rule unat_plus_one_less)
    show "unat (h (occupiedSlots b)) < unat (m_poolSize lp)" using occ by simp
  qed
  ultimately show ?thesis
    using d sub occ by (simp add: pool_abs_def)

qed

lemma pool_abs_push:
  assumes g: "lp_geom n lp" and al: "page_aligned n b" and abs: "pool_abs lp h b fl"
    and p: "p \<in> set (slot_addrs lp b)" "p \<notin> set fl" and nz: "b \<noteq> 0"
  shows "pool_abs lp (h(p := h (head_next b), head_next b := p,
                       occupiedSlots b := h (occupiedSlots b) - 1)) b (p # fl)"

proof -
  let ?h' = "h(p := h (head_next b), head_next b := p,
               occupiedSlots b := h (occupiedSlots b) - 1)"
  have sub: "set fl \<subseteq> set (slot_addrs lp b)" and d: "distinct fl"
    and pa: "path h (h (head_next b)) fl"
    and occ: "unat (h (occupiedSlots b)) + length fl = unat (m_poolSize lp)"
    using abs by (auto simp: pool_abs_def)
  have nh: "head_next b \<notin> set fl" and no: "occupiedSlots b \<notin> set fl"
    and ph: "p \<noteq> head_next b" and po: "p \<noteq> occupiedSlots b"
    using header_not_slot [OF g al] sub p(1) by auto
  have pz: "p \<noteq> 0"
    using slot_nonnull [OF g al nz] p(1) by auto
  have "path ?h' (h (head_next b)) fl"
    using pa nh no p(2) by (simp add: path_fun_upd)
  moreover have "?h' p = h (head_next b)" "?h' (head_next b) = p"
    using ph po occ_neq_head [of b] by simp_all
  moreover have "unat (h (occupiedSlots b) - 1) + Suc (length fl) = unat (m_poolSize lp)"
  proof -
    have "card (set fl) < card (set (slot_addrs lp b))"
      using sub p by (intro psubset_card_mono) auto
    then have "length fl < unat (m_poolSize lp)"
      using d distinct_slot_addrs [OF g al] by (simp add: distinct_card)
    with occ have pos: "0 < unat (h (occupiedSlots b))" by simp
    then have "unat (h (occupiedSlots b) - 1) = unat (h (occupiedSlots b)) - 1"
      by (rule unat_minus_one_pos)
    with occ pos show ?thesis by simp
  qed
  ultimately show ?thesis
    using d sub p pz by (simp add: pool_abs_def)

qed

lemma pools_invI:
  assumes "lp_geom (lg s) lp" "finite (live s)" "m_freePools lp \<subseteq> live s"
    and "if m_freePools lp = {} then m_freePool lp = 0 else m_freePool lp \<in> m_freePools lp"
    and "\<And>pool. pool \<in> live s \<Longrightarrow> pool \<noteq> 0 \<and> page_aligned (lg s) pool"
    and "\<And>pool. pool \<in> live s \<Longrightarrow> \<exists>fl. pool_abs lp (mem s) pool fl"
    and "\<And>pool. pool \<in> live s \<Longrightarrow> pool \<notin> F \<Longrightarrow> mem s (occupiedSlots pool) \<noteq> 0"
    and "\<And>pool. pool \<in> live s \<Longrightarrow>
           (pool \<in> m_freePools lp \<longleftrightarrow> mem s (occupiedSlots pool) \<noteq> m_poolSize lp)"
  shows "pools_inv F (lp, s)"
  using assms unfolding pools_inv_def pool_inv_abs by auto

lemma pools_invD:
  assumes "pools_inv F (lp, s)"
  shows "lp_geom (lg s) lp" "finite (live s)" "m_freePools lp \<subseteq> live s"
    and "if m_freePools lp = {} then m_freePool lp = 0 else m_freePool lp \<in> m_freePools lp"
    and "\<And>pool. pool \<in> live s \<Longrightarrow> pool \<noteq> 0"
    and "\<And>pool. pool \<in> live s \<Longrightarrow> page_aligned (lg s) pool"
    and "\<And>pool. pool \<in> live s \<Longrightarrow> \<exists>fl. pool_abs lp (mem s) pool fl"
    and "\<And>pool. pool \<in> live s \<Longrightarrow> pool \<notin> F \<Longrightarrow> mem s (occupiedSlots pool) \<noteq> 0"
    and "\<And>pool. pool \<in> live s \<Longrightarrow>
           (pool \<in> m_freePools lp \<longleftrightarrow> mem s (occupiedSlots pool) \<noteq> m_poolSize lp)"
  using assms unfolding pools_inv_def pool_inv_abs by auto

lemma pool_first_in: "finite S \<Longrightarrow> pool_first S = 0 \<or> pool_first S \<in> S"
  by (simp add: pool_first_def)

lemma pool_first_spec:
  "finite S \<Longrightarrow> (if S = {} then pool_first S = 0 else pool_first S \<in> S)"
  by (simp add: pool_first_def)

lemma pool_first_nonnull:
  assumes "finite S" "0 \<notin> S"
  shows "pool_first S \<noteq> 0 \<longleftrightarrow> S \<noteq> {}"

proof (cases "S = {}")
  case True
  then show ?thesis by (simp add: pool_first_def)

next
  case False
  then have "Min S \<in> S" using assms(1) by (rule Min_in [rotated])
  with assms(2) have "Min S \<noteq> 0" by auto
  with False show ?thesis by (simp add: pool_first_def)

qed

subsection \<open>\<open>allocate\<close> and \<open>deallocate\<close> keep the invariant\<close>

lemma nextFree_eq:
  assumes "mem s (head_next b) = x" "x \<noteq> 0"
  shows "nextFree b (lp, s) =
    (x,
     (if mem s (occupiedSlots b) + 1 = m_poolSize lp
      then lp\<lparr>m_freePools := pool_remove b (m_freePools lp),
              m_freePool := pool_first (pool_remove b (m_freePools lp))\<rparr>
      else lp),
     s\<lparr>mem := (mem s)(head_next b := mem s x,
                       occupiedSlots b := mem s (occupiedSlots b) + 1)\<rparr>)"
  using assms by (simp add: nextFree_def Let_def occ_neq_head)

lemma same_outside_header_upd:
  assumes "lp_geom n lp" "page_aligned n b"
  shows "same_outside n b h (h(head_next b := v, occupiedSlots b := w))"
  using page_of_header [OF assms] by (auto simp: same_outside_def)

lemma other_page_slot:
  assumes g: "lp_geom n lp" and al: "page_aligned n b" "page_aligned n b'" and ne: "b \<noteq> b'"
    and x: "x \<in> set (slot_addrs lp b)"
  shows "x \<notin> set (slot_addrs lp b')"
  using page_of_slot [OF g al(1) x] page_of_slot [OF g al(2), of x] ne by auto

text \<open>What a pop does to the whole state.\<close>

lemma nextFree_inv:
  assumes inv: "pools_inv F (lp, s)" and b: "b \<in> m_freePools lp"
  obtains x xs lp' s' where
    "nextFree b (lp, s) = (x, lp', s')"
    "pool_free_list lp (mem s) b = x # xs"
    "x \<noteq> 0"
    "pools_inv (F - {b}) (lp', s')"
    "live_slots (lp', s') = insert x (live_slots (lp, s))"
    "x \<notin> live_slots (lp, s)"
    "lg s' = lg s" "pages s' = pages s" "live s' = live s"
    "pool_free_list lp' (mem s') b = xs"
    "m_headerPadding lp' = m_headerPadding lp" "m_slotSize lp' = m_slotSize lp"
    "m_poolSize lp' = m_poolSize lp"
    "\<And>c. c \<in> live s \<Longrightarrow> c \<noteq> b \<Longrightarrow>
       pool_free_list lp' (mem s') c = pool_free_list lp (mem s) c"
    "xs \<noteq> [] \<Longrightarrow> m_freePool lp' = m_freePool lp"

proof -
  let ?n = "lg s" and ?h = "mem s"
  note D = pools_invD [OF inv]
  have bl: "b \<in> live s" using D(3) b by auto
  have g: "lp_geom ?n lp" by (rule D(1))
  have al: "page_aligned ?n b" and bz: "b \<noteq> 0" using D(5,6) bl by auto
  obtain fl where fl: "pool_abs lp ?h b fl" using D(7) [OF bl] by auto
  have "?h (occupiedSlots b) \<noteq> m_poolSize lp" using D(9) [OF bl] b by simp
  then have "unat (?h (occupiedSlots b)) \<noteq> unat (m_poolSize lp)"
    by (simp add: word_unat_eq_iff)
  then have "fl \<noteq> []" using fl by (auto simp: pool_abs_def)
  then obtain x xs where xs: "fl = x # xs" by (cases fl) auto
  have hx: "?h (head_next b) = x" and xz: "x \<noteq> 0"
    using fl unfolding xs by (auto simp: pool_abs_def)
  have xslot: "x \<in> set (slot_addrs lp b)" and xnew: "x \<notin> set xs"
    using fl unfolding xs by (auto simp: pool_abs_def)
  define h' where "h' = ?h(head_next b := ?h x, occupiedSlots b := ?h (occupiedSlots b) + 1)"
  define lp' where "lp' = (if ?h (occupiedSlots b) + 1 = m_poolSize lp
      then lp\<lparr>m_freePools := pool_remove b (m_freePools lp),
              m_freePool := pool_first (pool_remove b (m_freePools lp))\<rparr>
      else lp)"
  define s' where "s' = s\<lparr>mem := h'\<rparr>"
  have nf: "nextFree b (lp, s) = (x, lp', s')"
    unfolding lp'_def s'_def h'_def by (rule nextFree_eq [OF hx xz])
  have fields: "m_headerPadding lp' = m_headerPadding lp" "m_slotSize lp' = m_slotSize lp"
    "m_poolSize lp' = m_poolSize lp"
    by (simp_all add: lp'_def)
  have s'_simps: "lg s' = lg s" "pages s' = pages s" "live s' = live s" "mem s' = h'"
    by (simp_all add: s'_def)
  have abs_eq: "pool_abs lp' = pool_abs lp" by (rule pool_abs_cong [OF fields])
  have pop: "pool_abs lp h' b xs"
    using pool_abs_pop [OF g al fl [unfolded xs]] by (simp add: h'_def)
  have so: "same_outside ?n b ?h h'"
    unfolding h'_def by (rule same_outside_header_upd [OF g al])
  have other: "pool_abs lp h' c cl" if "c \<in> live s" "c \<noteq> b" "pool_abs lp ?h c cl" for c cl
    using g D(6) [OF that(1)] that(2) so that(3) by (rule pool_abs_other_page)
  have occ_b: "h' (occupiedSlots b) = ?h (occupiedSlots b) + 1"
    by (simp add: h'_def)
  have occ_other: "h' (occupiedSlots c) = ?h (occupiedSlots c)" if "c \<in> live s" "c \<noteq> b" for c
    using so page_of_header(1) [OF g D(6) [OF that(1)]] that(2) by (simp add: same_outside_def)
  have occ_nz: "h' (occupiedSlots b) \<noteq> 0"
  proof -
    have "unat (?h (occupiedSlots b)) < unat (m_poolSize lp)"
      using fl unfolding xs by (simp add: pool_abs_def)
    then have "unat (?h (occupiedSlots b) + 1) = Suc (unat (?h (occupiedSlots b)))"
      by (rule unat_plus_one_less)
    then show ?thesis unfolding occ_b by (auto simp: unat_eq_0 simp del: unsigned_eq_0_iff)
  qed
  have fin: "finite (m_freePools lp)" using D(2,3) by (rule rev_finite_subset)
  have fp': "m_freePools lp' = (if h' (occupiedSlots b) = m_poolSize lp
                                 then m_freePools lp - {b} else m_freePools lp)"
    by (simp add: lp'_def occ_b pool_remove_def)
  have inv': "pools_inv (F - {b}) (lp', s')"
  proof (rule pools_invI)
    show "lp_geom (lg s') lp'"
      using g by (simp add: s'_simps lp_geom_cong [OF fields])
    show "finite (live s')" using D(2) by (simp add: s'_simps)
    show "m_freePools lp' \<subseteq> live s'"
      using D(3) by (auto simp: fp' s'_simps)
    show "if m_freePools lp' = {} then m_freePool lp' = 0 else m_freePool lp' \<in> m_freePools lp'"
    proof (cases "?h (occupiedSlots b) + 1 = m_poolSize lp")
      case True
      then have "m_freePools lp' = m_freePools lp - {b}"
        "m_freePool lp' = pool_first (m_freePools lp - {b})"
        by (simp_all add: lp'_def pool_remove_def)
      moreover have "finite (m_freePools lp - {b})" using fin by simp
      then have "if m_freePools lp - {b} = {} then pool_first (m_freePools lp - {b}) = 0
                 else pool_first (m_freePools lp - {b}) \<in> m_freePools lp - {b}"
        by (rule pool_first_spec)
      ultimately show ?thesis by (simp only:)
    next
      case False
      then show ?thesis using D(4) b by (auto simp: lp'_def)
    qed
    show "pool \<noteq> 0 \<and> page_aligned (lg s') pool" if "pool \<in> live s'" for pool
      using that D(5,6) by (simp add: s'_simps)
    show "\<exists>fl. pool_abs lp' (mem s') pool fl" if pl: "pool \<in> live s'" for pool
    proof (cases "pool = b")
      case True
      then show ?thesis using pop by (auto simp: abs_eq s'_simps)
    next
      case False
      have pl': "pool \<in> live s" using pl by (simp add: s'_simps)
      obtain cl where "pool_abs lp ?h pool cl" using D(7) [OF pl'] by auto
      then have "pool_abs lp h' pool cl" using other pl' False by simp
      then show ?thesis by (auto simp: abs_eq s'_simps)
    qed
    show "mem s' (occupiedSlots pool) \<noteq> 0" if "pool \<in> live s'" "pool \<notin> F - {b}" for pool
    proof (cases "pool = b")
      case True
      then show ?thesis using occ_nz by (simp add: s'_simps)
    next
      case False
      then show ?thesis using that D(8) [of pool] occ_other [of pool] by (simp add: s'_simps)
    qed
    show "pool \<in> m_freePools lp' \<longleftrightarrow> mem s' (occupiedSlots pool) \<noteq> m_poolSize lp'"
      if "pool \<in> live s'" for pool
    proof (cases "pool = b")
      case True
      then show ?thesis using b by (simp add: fp' s'_simps fields)
    next
      case False
      then show ?thesis
        using that D(9) [of pool] occ_other [of pool] by (simp add: fp' s'_simps fields)
    qed
  qed
  have fl_b: "pool_free_list lp ?h b = x # xs"
    using pool_abs_free_list [OF fl] xs by simp
  have fl_b': "pool_free_list lp' h' b = xs"
    using pool_abs_free_list [OF pop] by (simp add: pool_free_list_cong [OF fields(3)])
  have alloc_b: "allocated lp' h' b = insert x (allocated lp ?h b)"
    using xslot xnew
    by (auto simp: allocated_cong [OF fields] pool_abs_allocated [OF pop]
        pool_abs_allocated [OF fl] xs)
  have alloc_other: "allocated lp' h' c = allocated lp ?h c"
    if c: "c \<in> live s" "c \<noteq> b" for c
  proof -
    obtain cl where cl: "pool_abs lp ?h c cl" using D(7) [OF c(1)] by auto
    from other [OF c cl] cl show ?thesis
      by (simp add: allocated_cong [OF fields] pool_abs_allocated)
  qed
  have ls: "live_slots (lp', s') = insert x (live_slots (lp, s))"
  proof -
    have "(\<Union>c\<in>live s. allocated lp' h' c)
            = allocated lp' h' b \<union> (\<Union>c\<in>live s - {b}. allocated lp' h' c)"
      using bl by auto
    also have "\<dots> = insert x (allocated lp ?h b) \<union> (\<Union>c\<in>live s - {b}. allocated lp ?h c)"
      using alloc_other by (simp add: alloc_b)
    also have "\<dots> = insert x (\<Union>c\<in>live s. allocated lp ?h c)"
      using bl by auto
    finally show ?thesis by (simp add: live_slots_def s'_simps)
  qed
  have xl: "x \<notin> live_slots (lp, s)"
  proof -
    have "x \<notin> allocated lp ?h c" if "c \<in> live s" for c
    proof (cases "c = b")
      case True
      then show ?thesis by (simp add: pool_abs_allocated [OF fl] xs)
    next
      case False
      then have "x \<notin> set (slot_addrs lp c)"
        using other_page_slot [OF g al D(6) [OF that] _ xslot] by auto
      then show ?thesis by (simp add: allocated_def)
    qed
    then show ?thesis by (auto simp: live_slots_def)
  qed
  have fl_other: "pool_free_list lp' (mem s') c = pool_free_list lp ?h c"
    if c: "c \<in> live s" "c \<noteq> b" for c
  proof -
    obtain cl where cl: "pool_abs lp ?h c cl" using D(7) [OF c(1)] by auto
    from other [OF c cl] cl show ?thesis
      by (simp add: pool_free_list_cong [OF fields(3)] pool_abs_free_list s'_simps)
  qed
  have keep: "m_freePool lp' = m_freePool lp" if "xs \<noteq> []"
  proof -
    have "unat (h' (occupiedSlots b)) + length xs = unat (m_poolSize lp)"
      using pop by (simp add: pool_abs_def)
    moreover have "0 < length xs" using that by simp
    ultimately have "unat (h' (occupiedSlots b)) \<noteq> unat (m_poolSize lp)" by linarith
    then have "?h (occupiedSlots b) + 1 \<noteq> m_poolSize lp"
      unfolding occ_b by auto
    then show ?thesis by (simp add: lp'_def)
  qed
  show thesis
    using nf fl_b xz inv' ls xl s'_simps(1-3) fl_b' [folded s'_simps(4)] fields fl_other keep
    by (rule that)

qed

lemma Suc_unat_poolSize_minus1:
  assumes "lp_geom n lp"
  shows "Suc (unat (m_poolSize lp - 1)) = unat (m_poolSize lp)"

proof -
  have "0 < unat (m_poolSize lp)" using assms by (simp add: lp_geom_def)
  then have "unat (m_poolSize lp - 1) = unat (m_poolSize lp) - 1"
    by (rule unat_minus_one_pos)
  with \<open>0 < unat (m_poolSize lp)\<close> show ?thesis by simp

qed

lemma constructPoolHeader_ok:
  assumes g: "lp_geom n lp" and al: "page_aligned n pg" and nz: "pg \<noteq> 0"
  obtains h' where
    "constructPoolHeader lp pg h = Inr h'"
    "pool_abs lp h' pg (slot_addrs lp pg)"
    "h' (occupiedSlots pg) = 0"
    "same_outside n pg h h'"

proof -
  define first where "first = pg + sizeof_PoolHeader + m_headerPadding lp"
  define k where "k = unat (m_poolSize lp - 1)"
  define h2 where "h2 = h(occupiedSlots pg := 0, head_next pg := first)"
  define r where "r = link_slots k first (m_slotSize lp) h2"
  define h' where "h' = (snd r)(fst r := 0)"
  have sk: "Suc k = unat (m_poolSize lp)"
    unfolding k_def by (rule Suc_unat_poolSize_minus1 [OF g])
  have sl: "slot_addrs lp pg = chain first (m_slotSize lp) (Suc k)"
    by (simp only: slot_addrs_def first_def sk)
  have c: "constructPoolHeader lp pg h = Inr h'"
    using nz by (simp add: constructPoolHeader_def Let_def h'_def r_def h2_def k_def first_def
        split: prod.splits)
  have d: "distinct (chain first (m_slotSize lp) (Suc k))"
    using distinct_slot_addrs [OF g al] unfolding sl .
  have z: "0 \<notin> set (chain first (m_slotSize lp) (Suc k))"
    using slot_nonnull [OF g al nz] unfolding sl .
  have p: "path h' first (slot_addrs lp pg)"
    unfolding h'_def r_def sl using d z by (rule link_slots_path)
  have last_in: "fst r \<in> set (slot_addrs lp pg)"
    unfolding sl r_def by (simp only: link_slots_fst chain_Suc_snoc) simp
  have frame: "h' x = h2 x" if "x \<notin> set (slot_addrs lp pg)" for x
  proof -
    have "x \<noteq> fst r" using that last_in by auto
    moreover have "x \<notin> set (chain first (m_slotSize lp) k)"
      using that unfolding sl by (simp only: chain_Suc_snoc) simp
    then have "snd r x = h2 x" unfolding r_def by (rule link_slots_frame)
    ultimately show ?thesis by (simp add: h'_def)
  qed
  have hd: "h' (head_next pg) = first" and oc: "h' (occupiedSlots pg) = 0"
    using frame header_not_slot [OF g al] occ_neq_head [of pg] by (simp_all add: h2_def)
  have abs: "pool_abs lp h' pg (slot_addrs lp pg)"
    using p distinct_slot_addrs [OF g al] by (simp add: pool_abs_def hd oc)
  have so: "same_outside n pg h h'"
    unfolding same_outside_def
  proof (intro allI impI)
    fix x assume x: "x AND getPoolMask n \<noteq> pg"
    then have "x \<notin> set (slot_addrs lp pg)"
      using page_of_slot [OF g al] by auto
    then have "h' x = h2 x" by (rule frame)
    moreover have "x \<noteq> occupiedSlots pg" "x \<noteq> head_next pg"
      using x page_of_header [OF g al] by auto
    ultimately show "h' x = h x" by (simp add: h2_def)
  qed
  from c abs oc so show thesis by (rule that)

qed

lemma constructPoolHeader_null: "constructPoolHeader lp 0 h = Inl NullDeref"
  by (simp add: constructPoolHeader_def)

lemma allocated_fresh:
  "pool_abs lp h pg (slot_addrs lp pg) \<Longrightarrow> allocated lp h pg = {}"
  by (simp add: pool_abs_allocated)

lemma allocate_step:
  assumes inv: "lp_inv (lp, s)" and np: "next_page_ok s"
    and al: "allocate (lp, s) = Inr (p, lp', s')"
  obtains b lp1 s1 where
    "(p, lp', s') = nextFree b (lp1, s1)"
    "pools_inv {b} (lp1, s1) \<or> pools_inv {} (lp1, s1)"
    "b \<in> m_freePools lp1"
    "m_freePool lp1 = b"
    "live_slots (lp1, s1) = live_slots (lp, s)"
    "m_headerPadding lp1 = m_headerPadding lp" "m_slotSize lp1 = m_slotSize lp"
    "m_poolSize lp1 = m_poolSize lp" "lg s1 = lg s"
    "m_freePool lp \<noteq> 0 \<and> b = m_freePool lp \<and> lp1 = lp \<and> s1 = s
     \<or> m_freePool lp = 0 \<and> m_freePools lp = {} \<and> b \<noteq> 0 \<and> pages s = b # pages s1
        \<and> live s1 = insert b (live s) \<and> b \<notin> live s
        \<and> pool_free_list lp1 (mem s1) b = slot_addrs lp b
        \<and> (\<forall>c\<in>live s. pool_free_list lp1 (mem s1) c = pool_free_list lp (mem s) c)"

proof -
  note D = pools_invD [OF inv [unfolded lp_inv_def]]
  have zl: "0 \<notin> live s" using D(5) by auto
  then have zf: "0 \<notin> m_freePools lp" using D(3) by auto
  have fin: "finite (m_freePools lp)" using D(2,3) by (rule rev_finite_subset)
  show thesis
  proof (cases "m_freePool lp = 0")
    case False
    then have ne: "m_freePools lp \<noteq> {}" using D(4) by (auto split: if_splits)
    then have b: "m_freePool lp \<in> m_freePools lp" using D(4) by simp
    have "(p, lp', s') = nextFree (m_freePool lp) (lp, s)"
      using al False by (simp add: allocate_def)
    then show ?thesis
      using inv [unfolded lp_inv_def] b False by (intro that [of "m_freePool lp" lp s]) simp_all
  next
    case True
    then have emp: "m_freePools lp = {}" using D(4) zf by (auto split: if_splits)
    then have pf: "pool_first (m_freePools lp) = 0" by (simp add: pool_first_def)
    obtain pg s1 where aa: "aligned_alloc s = (pg, s1)" by (cases "aligned_alloc s")
    have al': "(case constructPoolHeader lp pg (mem s1) of
                 Inl f \<Rightarrow> Inl f
               | Inr h \<Rightarrow> Inr (nextFree pg (lp\<lparr>m_freePools := pool_insert pg (m_freePools lp),
                                               m_freePool := pg\<rparr>, s1\<lparr>mem := h\<rparr>)))
               = Inr (p, lp', s')"
      using al True pf aa by (simp add: allocate_def Let_def)
    have pgz: "pg \<noteq> 0"
    proof
      assume "pg = 0"
      then show False using al' by (simp add: constructPoolHeader_null)
    qed
    obtain ps where ps: "pages s = pg # ps" and s1: "s1 = s\<lparr>pages := ps, live := insert pg (live s)\<rparr>"
      using aa pgz by (auto simp: aligned_alloc_def split: list.splits)
    have pal: "page_aligned (lg s) pg" and pnl: "pg \<notin> live s"
      using np pgz by (simp_all add: next_page_ok_def ps)
    obtain h' where h': "constructPoolHeader lp pg (mem s1) = Inr h'"
      "pool_abs lp h' pg (slot_addrs lp pg)" "h' (occupiedSlots pg) = 0"
      "same_outside (lg s) pg (mem s1) h'"
      using constructPoolHeader_ok [OF D(1) pal pgz] by blast
    define lp1 where "lp1 = lp\<lparr>m_freePools := pool_insert pg (m_freePools lp), m_freePool := pg\<rparr>"
    define s2 where "s2 = s1\<lparr>mem := h'\<rparr>"
    have res: "(p, lp', s') = nextFree pg (lp1, s2)"
      using al' by (simp add: h'(1) lp1_def s2_def)
    have fields: "m_headerPadding lp1 = m_headerPadding lp" "m_slotSize lp1 = m_slotSize lp"
      "m_poolSize lp1 = m_poolSize lp"
      by (simp_all add: lp1_def)
    have s2_simps: "lg s2 = lg s" "pages s2 = ps" "live s2 = insert pg (live s)" "mem s2 = h'"
      "mem s1 = mem s"
      by (simp_all add: s2_def s1)
    have abs_eq: "pool_abs lp1 = pool_abs lp" by (rule pool_abs_cong [OF fields])
    have other: "pool_abs lp h' c cl" if "c \<in> live s" "pool_abs lp (mem s) c cl" for c cl
    proof -
      have "c \<noteq> pg" using that(1) pnl by auto
      with D(1) D(6) [OF that(1)] show ?thesis
        using h'(4) that(2) unfolding s2_simps by (rule pool_abs_other_page)
    qed
    have occ_other: "h' (occupiedSlots c) = mem s (occupiedSlots c)" if "c \<in> live s" for c
    proof -
      have "c \<noteq> pg" using that pnl by auto
      then show ?thesis
        using h'(4) page_of_header(1) [OF D(1) D(6) [OF that]]
        by (simp add: same_outside_def s2_simps)
    qed
    have cap: "m_poolSize lp \<noteq> 0"
      using D(1) by (auto simp: lp_geom_def)
    have inv1: "pools_inv {pg} (lp1, s2)"
    proof (rule pools_invI)
      show "lp_geom (lg s2) lp1" using D(1) by (simp add: s2_simps lp_geom_cong [OF fields])
      show "finite (live s2)" using D(2) by (simp add: s2_simps)
      show "m_freePools lp1 \<subseteq> live s2"
        using D(3) by (auto simp: lp1_def pool_insert_def s2_simps)
      show "if m_freePools lp1 = {} then m_freePool lp1 = 0 else m_freePool lp1 \<in> m_freePools lp1"
        by (simp add: lp1_def pool_insert_def)
      show "pool \<noteq> 0 \<and> page_aligned (lg s2) pool" if "pool \<in> live s2" for pool
        using that D(5,6) pgz pal by (auto simp: s2_simps)
      show "\<exists>fl. pool_abs lp1 (mem s2) pool fl" if pl: "pool \<in> live s2" for pool
      proof (cases "pool = pg")
        case True
        then show ?thesis using h'(2) by (auto simp: abs_eq s2_simps)
      next
        case False
        then have pl': "pool \<in> live s" using pl by (simp add: s2_simps)
        obtain cl where "pool_abs lp (mem s) pool cl" using D(7) [OF pl'] by auto
        then have "pool_abs lp h' pool cl" using other pl' by simp
        then show ?thesis by (auto simp: abs_eq s2_simps)
      qed
      show "mem s2 (occupiedSlots pool) \<noteq> 0" if "pool \<in> live s2" "pool \<notin> {pg}" for pool
        using that D(8) [of pool] occ_other [of pool] by (simp add: s2_simps)
      show "pool \<in> m_freePools lp1 \<longleftrightarrow> mem s2 (occupiedSlots pool) \<noteq> m_poolSize lp1"
        if "pool \<in> live s2" for pool
      proof (cases "pool = pg")
        case True
        then show ?thesis using cap h'(3)
          by (auto simp: lp1_def pool_insert_def s2_simps)
      next
        case False
        then show ?thesis
          using that D(9) [of pool] occ_other [of pool] emp
          by (auto simp: lp1_def pool_insert_def s2_simps)
      qed
    qed
    have fl_other: "pool_free_list lp1 (mem s2) c = pool_free_list lp (mem s) c"
      if c: "c \<in> live s" for c
    proof -
      obtain cl where cl: "pool_abs lp (mem s) c cl" using D(7) [OF c] by auto
      from other [OF c cl] cl show ?thesis
        by (simp add: pool_free_list_cong [OF fields(3)] pool_abs_free_list s2_simps)
    qed
    have fl_pg: "pool_free_list lp1 (mem s2) pg = slot_addrs lp pg"
      using pool_abs_free_list [OF h'(2)]
      by (simp add: pool_free_list_cong [OF fields(3)] s2_simps)
    have ls: "live_slots (lp1, s2) = live_slots (lp, s)"
    proof -
      have "allocated lp1 h' pg = {}"
        using allocated_fresh [OF h'(2)] by (simp add: allocated_cong [OF fields])
      moreover have "allocated lp1 h' c = allocated lp (mem s) c" if "c \<in> live s" for c
        using fl_other [OF that]
        by (simp add: allocated_def slot_addrs_cong [OF fields] s2_simps)
      ultimately show ?thesis
        by (simp add: live_slots_def s2_simps)
    qed
    show ?thesis
      using res inv1 True emp pgz ps pnl fl_pg fl_other ls fields
      by (intro that [of pg lp1 s2]) (simp_all add: lp1_def pool_insert_def s2_simps)
  qed

qed

lemma allocate_inv0:
  assumes "lp_inv st" "next_page_ok (snd st)" "allocate st = Inr (p, st')"
  shows "lp_inv st' \<and> p \<noteq> 0 \<and> p \<notin> live_slots st \<and> live_slots st' = insert p (live_slots st)"

proof -
  obtain lp s where st: "st = (lp, s)" by (cases st)
  obtain lp' s' where st': "st' = (lp', s')" by (cases st')
  from assms obtain b lp1 s1 where
    nf: "(p, lp', s') = nextFree b (lp1, s1)"
    and inv1: "pools_inv {b} (lp1, s1) \<or> pools_inv {} (lp1, s1)"
    and b: "b \<in> m_freePools lp1"
    and ls: "live_slots (lp1, s1) = live_slots (lp, s)"
    unfolding st st' by (auto elim: allocate_step)
  from inv1 show ?thesis
  proof
    assume "pools_inv {b} (lp1, s1)"
    from nextFree_inv [OF this b] nf ls show ?thesis
      unfolding st st' lp_inv_def by (metis Diff_cancel Pair_inject)
  next
    assume "pools_inv {} (lp1, s1)"
    from nextFree_inv [OF this b] nf ls show ?thesis
      unfolding st st' lp_inv_def by (metis Diff_empty Diff_cancel empty_Diff Pair_inject)
  qed

qed

lemma singleton_rest:
  assumes "distinct xs" "distinct ys" "set ys \<subseteq> set xs" "Suc (length ys) = length xs"
    and "p \<in> set xs - set ys"
  shows "set xs - set ys = {p}"

proof -
  have "card (set xs - set ys) = card (set xs) - card (set ys)"
    using assms(3) by (intro card_Diff_subset) simp_all
  also have "\<dots> = 1"
    using assms(1,2,4) by (simp add: distinct_card)
  finally have "card (set xs - set ys) = 1" .
  then obtain q where "set xs - set ys = {q}" by (auto simp: card_1_singleton_iff)
  with assms(5) show ?thesis by auto

qed

lemma same_outside_slot_upd:
  assumes "lp_geom n lp" "page_aligned n b" "p \<in> set (slot_addrs lp b)"
  shows "same_outside n b h (h(p := u, head_next b := v, occupiedSlots b := w))"
  using page_of_header [OF assms(1,2)] page_of_slot [OF assms]
  by (auto simp: same_outside_def)

lemma live_slotsE:
  assumes "p \<in> live_slots (lp, s)"
  obtains b where "b \<in> live s" "p \<in> allocated lp (mem s) b"
  using assms by (auto simp: live_slots_def)

lemma deallocate_step:
  assumes inv: "lp_inv (lp, s)" and p: "p \<in> live_slots (lp, s)"
    and res: "deallocate p (lp, s) = (lp', s')"
  obtains b where
    "b \<in> live s" "p \<in> allocated lp (mem s) b" "p AND getPoolMask (lg s) = b"
    "lp_inv (lp', s')"
    "live_slots (lp', s') = live_slots (lp, s) - {p}"
    "lg s' = lg s" "pages s' = pages s"
    "m_headerPadding lp' = m_headerPadding lp" "m_slotSize lp' = m_slotSize lp"
    "m_poolSize lp' = m_poolSize lp"
    "mem s (occupiedSlots b) = 1 \<Longrightarrow>
       live s' = live s - {b} \<and> mem s' = mem s \<and> allocated lp (mem s) b = {p}"
    "mem s (occupiedSlots b) \<noteq> 1 \<Longrightarrow>
       live s' = live s \<and> m_freePool lp' = b
       \<and> pool_free_list lp' (mem s') b = p # pool_free_list lp (mem s) b
       \<and> (\<forall>c\<in>live s. c \<noteq> b \<longrightarrow>
              pool_free_list lp' (mem s') c = pool_free_list lp (mem s) c)"

proof -
  let ?n = "lg s" and ?h = "mem s"
  note D = pools_invD [OF inv [unfolded lp_inv_def]]
  from p obtain b where bl: "b \<in> live s" and pa: "p \<in> allocated lp ?h b"
    by (rule live_slotsE)
  have g: "lp_geom ?n lp" by (rule D(1))
  have al: "page_aligned ?n b" and bz: "b \<noteq> 0" using D(5,6) bl by auto
  obtain fl where fl: "pool_abs lp ?h b fl" using D(7) [OF bl] by auto
  have ps: "p \<in> set (slot_addrs lp b)" and pf: "p \<notin> set fl"
    using pa by (simp_all add: pool_abs_allocated [OF fl])
  have pb: "p AND getPoolMask ?n = b" by (rule page_of_slot [OF g al ps])
  have fin: "finite (m_freePools lp)" using D(2,3) by (rule rev_finite_subset)
  have notin_other: "p \<notin> allocated lp ?h c" if "c \<in> live s" "c \<noteq> b" for c
  proof -
    have "p \<notin> set (slot_addrs lp c)"
      using other_page_slot [OF g al D(6) [OF that(1)] _ ps] that(2) by auto
    then show ?thesis by (simp add: allocated_def)
  qed
  have occ: "unat (?h (occupiedSlots b)) + length fl = unat (m_poolSize lp)"
    and d: "distinct fl" and sub: "set fl \<subseteq> set (slot_addrs lp b)"
    using fl by (auto simp: pool_abs_def)
  show thesis
  proof (cases "?h (occupiedSlots b) = 1")
    case True
    have lp': "lp' = lp\<lparr>m_freePools := m_freePools lp - {b},
                        m_freePool := pool_first (m_freePools lp - {b})\<rparr>"
      and s': "s' = s\<lparr>live := live s - {b}\<rparr>"
      using res True by (simp_all add: deallocate_def pb Let_def pool_remove_def sys_free_def)
    have fields: "m_headerPadding lp' = m_headerPadding lp" "m_slotSize lp' = m_slotSize lp"
      "m_poolSize lp' = m_poolSize lp"
      by (simp_all add: lp')
    have s'_simps: "lg s' = lg s" "pages s' = pages s" "live s' = live s - {b}" "mem s' = ?h"
      by (simp_all add: s')
    have "Suc (length fl) = length (slot_addrs lp b)"
      using occ True by simp
    with distinct_slot_addrs [OF g al] d sub have one: "set (slot_addrs lp b) - set fl = {p}"
      using ps pf by (intro singleton_rest) simp_all
    then have ab: "allocated lp ?h b = {p}" by (simp add: pool_abs_allocated [OF fl])
    have inv': "lp_inv (lp', s')"
      unfolding lp_inv_def
    proof (rule pools_invI)
      show "lp_geom (lg s') lp'" using g by (simp add: s'_simps lp_geom_cong [OF fields])
      show "finite (live s')" using D(2) by (simp add: s'_simps)
      show "m_freePools lp' \<subseteq> live s'" using D(3) by (auto simp: lp' s'_simps)
      have "finite (m_freePools lp - {b})" using fin by simp
      then have "if m_freePools lp - {b} = {} then pool_first (m_freePools lp - {b}) = 0
                 else pool_first (m_freePools lp - {b}) \<in> m_freePools lp - {b}"
        by (rule pool_first_spec)
      then show "if m_freePools lp' = {} then m_freePool lp' = 0
                 else m_freePool lp' \<in> m_freePools lp'"
        by (auto simp: lp' split: if_splits)
      show "pool \<noteq> 0 \<and> page_aligned (lg s') pool" if "pool \<in> live s'" for pool
        using that D(5,6) by (simp add: s'_simps)
      show "\<exists>fl. pool_abs lp' (mem s') pool fl" if "pool \<in> live s'" for pool
        using that D(7) [of pool] by (simp add: s'_simps pool_abs_cong [OF fields])
      show "mem s' (occupiedSlots pool) \<noteq> 0" if "pool \<in> live s'" "pool \<notin> {}" for pool
        using that D(8) [of pool] by (simp add: s'_simps)
      show "pool \<in> m_freePools lp' \<longleftrightarrow> mem s' (occupiedSlots pool) \<noteq> m_poolSize lp'"
        if "pool \<in> live s'" for pool
        using that D(9) [of pool] by (auto simp: s'_simps lp')
    qed
    have ls: "live_slots (lp', s') = live_slots (lp, s) - {p}"
    proof -
      have "(\<Union>c\<in>live s. allocated lp ?h c) = {p} \<union> (\<Union>c\<in>live s - {b}. allocated lp ?h c)"
        using bl ab by auto
      moreover have "p \<notin> (\<Union>c\<in>live s - {b}. allocated lp ?h c)"
        using notin_other by auto
      ultimately show ?thesis
        by (simp add: live_slots_def s'_simps allocated_cong [OF fields])
    qed
    show ?thesis
      using bl pa pb inv' ls s'_simps fields ab True
      by (intro that [of b]) simp_all
  next
    case False
    define h' where "h' = ?h(p := ?h (head_next b), head_next b := p,
                            occupiedSlots b := ?h (occupiedSlots b) - 1)"
    have ph: "p \<noteq> head_next b" and po: "p \<noteq> occupiedSlots b"
      using header_not_slot [OF g al] ps by auto
    have full_iff: "?h (occupiedSlots b) - 1 = m_poolSize lp - 1
                    \<longleftrightarrow> ?h (occupiedSlots b) = m_poolSize lp"
      by simp
    have lp': "lp' = (if ?h (occupiedSlots b) = m_poolSize lp
                      then lp\<lparr>m_freePool := b, m_freePools := insert b (m_freePools lp)\<rparr>
                      else lp\<lparr>m_freePool := b\<rparr>)"
      and s': "s' = s\<lparr>mem := h'\<rparr>"
      using res False ph po occ_neq_head [of b]
      by (auto simp: deallocate_def pb Let_def pool_insert_def h'_def full_iff
          fun_upd_twist split: if_splits)
    have fields: "m_headerPadding lp' = m_headerPadding lp" "m_slotSize lp' = m_slotSize lp"
      "m_poolSize lp' = m_poolSize lp"
      by (simp_all add: lp')
    have s'_simps: "lg s' = lg s" "pages s' = pages s" "live s' = live s" "mem s' = h'"
      by (simp_all add: s')
    have abs_eq: "pool_abs lp' = pool_abs lp" by (rule pool_abs_cong [OF fields])
    have push: "pool_abs lp h' b (p # fl)"
      unfolding h'_def by (rule pool_abs_push [OF g al fl ps pf bz])
    have so: "same_outside ?n b ?h h'"
      unfolding h'_def by (rule same_outside_slot_upd [OF g al ps])
    have other: "pool_abs lp h' c cl" if "c \<in> live s" "c \<noteq> b" "pool_abs lp ?h c cl" for c cl
      using g D(6) [OF that(1)] that(2) so that(3) by (rule pool_abs_other_page)
    have occ_b: "h' (occupiedSlots b) = ?h (occupiedSlots b) - 1"
      by (simp add: h'_def)
    have occ_other: "h' (occupiedSlots c) = ?h (occupiedSlots c)" if "c \<in> live s" "c \<noteq> b" for c
      using so page_of_header(1) [OF g D(6) [OF that(1)]] that(2) by (simp add: same_outside_def)
    have pos: "0 < unat (?h (occupiedSlots b))"
      using D(8) [OF bl] by (simp add: unat_gt_0)
    have un1: "unat (?h (occupiedSlots b)) \<noteq> 1"
      using False by (metis unat_1 word_unat_eq_iff)
    have um: "unat (h' (occupiedSlots b)) = unat (?h (occupiedSlots b)) - 1"
      unfolding occ_b using pos by (rule unat_minus_one_pos)
    have occ_nz: "h' (occupiedSlots b) \<noteq> 0"
      using um pos un1 by (auto simp: unat_eq_0 simp del: unsigned_eq_0_iff)
    have occ_nfull: "h' (occupiedSlots b) \<noteq> m_poolSize lp"
    proof
      assume "h' (occupiedSlots b) = m_poolSize lp"
      then have "unat (?h (occupiedSlots b)) - 1 = unat (m_poolSize lp)" using um by simp
      with occ pos show False by simp
    qed
    have b_in: "b \<in> m_freePools lp'"
      using D(9) [OF bl] by (simp add: lp')
    have fp': "m_freePools lp' = insert b (m_freePools lp)"
      using D(9) [OF bl] by (auto simp: lp')
    have inv': "lp_inv (lp', s')"
      unfolding lp_inv_def
    proof (rule pools_invI)
      show "lp_geom (lg s') lp'" using g by (simp add: s'_simps lp_geom_cong [OF fields])
      show "finite (live s')" using D(2) by (simp add: s'_simps)
      show "m_freePools lp' \<subseteq> live s'" using D(3) bl by (auto simp: fp' s'_simps)
      show "if m_freePools lp' = {} then m_freePool lp' = 0
            else m_freePool lp' \<in> m_freePools lp'"
        using b_in by (auto simp: lp')
      show "pool \<noteq> 0 \<and> page_aligned (lg s') pool" if "pool \<in> live s'" for pool
        using that D(5,6) by (simp add: s'_simps)
      show "\<exists>fl. pool_abs lp' (mem s') pool fl" if pl: "pool \<in> live s'" for pool
      proof (cases "pool = b")
        case True
        then show ?thesis using push by (auto simp: abs_eq s'_simps)
      next
        case False
        have pl': "pool \<in> live s" using pl by (simp add: s'_simps)
        obtain cl where "pool_abs lp ?h pool cl" using D(7) [OF pl'] by auto
        then have "pool_abs lp h' pool cl" using other pl' False by simp
        then show ?thesis by (auto simp: abs_eq s'_simps)
      qed
      show "mem s' (occupiedSlots pool) \<noteq> 0" if "pool \<in> live s'" "pool \<notin> {}" for pool
      proof (cases "pool = b")
        case True
        then show ?thesis using occ_nz by (simp add: s'_simps)
      next
        case False
        then show ?thesis using that D(8) [of pool] occ_other [of pool] by (simp add: s'_simps)
      qed
      show "pool \<in> m_freePools lp' \<longleftrightarrow> mem s' (occupiedSlots pool) \<noteq> m_poolSize lp'"
        if "pool \<in> live s'" for pool
      proof (cases "pool = b")
        case True
        then show ?thesis using b_in occ_nfull by (simp add: s'_simps fields)
      next
        case False
        then show ?thesis
          using that D(9) [of pool] occ_other [of pool] by (simp add: fp' s'_simps fields)
      qed
    qed
    have fl_b: "pool_free_list lp ?h b = fl" by (rule pool_abs_free_list [OF fl])
    have fl_b': "pool_free_list lp' h' b = p # fl"
      using pool_abs_free_list [OF push] by (simp add: pool_free_list_cong [OF fields(3)])
    have fl_other: "pool_free_list lp' h' c = pool_free_list lp ?h c"
      if c: "c \<in> live s" "c \<noteq> b" for c
    proof -
      obtain cl where cl: "pool_abs lp ?h c cl" using D(7) [OF c(1)] by auto
      from other [OF c cl] cl show ?thesis
        by (simp add: pool_free_list_cong [OF fields(3)] pool_abs_free_list)
    qed
    have alloc_b: "allocated lp' h' b = allocated lp ?h b - {p}"
      by (auto simp: allocated_def slot_addrs_cong [OF fields] fl_b fl_b')
    have alloc_other: "allocated lp' h' c = allocated lp ?h c" if "c \<in> live s" "c \<noteq> b" for c
      using fl_other [OF that] by (simp add: allocated_def slot_addrs_cong [OF fields])
    have ls: "live_slots (lp', s') = live_slots (lp, s) - {p}"
    proof -
      have "(\<Union>c\<in>live s. allocated lp' h' c)
              = allocated lp' h' b \<union> (\<Union>c\<in>live s - {b}. allocated lp' h' c)"
        using bl by auto
      also have "\<dots> = (allocated lp ?h b - {p}) \<union> (\<Union>c\<in>live s - {b}. allocated lp ?h c)"
        using alloc_other by (simp add: alloc_b)
      also have "\<dots> = (\<Union>c\<in>live s. allocated lp ?h c) - {p}"
        using bl notin_other by auto
      finally show ?thesis by (simp add: live_slots_def s'_simps)
    qed
    have mf: "m_freePool lp' = b" by (simp add: lp')
    show ?thesis
      using bl pa pb inv' ls s'_simps fields False mf fl_b' fl_b fl_other
      by (intro that [of b]) simp_all
  qed

qed

lemma lp_inv_fresh:
  assumes "lp_geom (lg s) lp" "m_freePools lp = {}" "m_freePool lp = 0" "live s = {}"
  shows "lp_inv (lp, s)"
  using assms by (simp add: lp_inv_def pools_inv_def)

lemma deallocate_inv0:
  assumes "lp_inv st" "p \<in> live_slots st"
  shows "lp_inv (deallocate p st) \<and> live_slots (deallocate p st) = live_slots st - {p}"

proof -
  obtain lp s where st: "st = (lp, s)" by (cases st)
  obtain lp' s' where st': "deallocate p (lp, s) = (lp', s')" by (cases "deallocate p (lp, s)")
  from assms show ?thesis
    unfolding st st' by (auto elim: deallocate_step [OF _ _ st'])

qed

lemma lp_inv_free_list_slots:
  assumes "lp_inv (lp, s)" "b \<in> live s"
  shows "set (pool_free_list lp (mem s) b) \<subseteq> set (slot_addrs lp b)"
    and "distinct (pool_free_list lp (mem s) b)"
    and "unat (mem s (occupiedSlots b)) + length (pool_free_list lp (mem s) b)
           = unat (m_poolSize lp)"

proof -
  obtain fl where fl: "pool_abs lp (mem s) b fl"
    using pools_invD(7) [OF assms(1) [unfolded lp_inv_def] assms(2)] by auto
  then have eq: "pool_free_list lp (mem s) b = fl" by (rule pool_abs_free_list)
  from fl show "set (pool_free_list lp (mem s) b) \<subseteq> set (slot_addrs lp b)"
    and "distinct (pool_free_list lp (mem s) b)"
    and "unat (mem s (occupiedSlots b)) + length (pool_free_list lp (mem s) b)
           = unat (m_poolSize lp)"
    unfolding eq by (simp_all add: pool_abs_def)

qed

subsection \<open>The slot that \<open>allocate\<close> returns\<close>

text \<open>Which slot an allocation returns, and what it leaves of the free lists.\<close>

lemma allocate_head:
  assumes inv: "lp_inv (lp, s)" and np: "next_page_ok s"
    and al: "allocate (lp, s) = Inr (p, lp', s')"
  obtains b where
    "p AND getPoolMask (lg s) = b" "b \<in> live s'"
    "lp_inv (lp', s')"
    "b \<in> live s \<Longrightarrow> pool_free_list lp (mem s) b = p # pool_free_list lp' (mem s') b"
    "b \<notin> live s \<Longrightarrow> slot_addrs lp b = p # pool_free_list lp' (mem s') b"
    "\<And>c. c \<in> live s \<Longrightarrow> c \<noteq> b \<Longrightarrow>
       pool_free_list lp' (mem s') c = pool_free_list lp (mem s) c"
    "live s' = insert b (live s)" "lg s' = lg s"
    "m_headerPadding lp' = m_headerPadding lp" "m_slotSize lp' = m_slotSize lp"
    "m_poolSize lp' = m_poolSize lp"
    "b \<in> live s \<Longrightarrow> pages s' = pages s \<and> m_freePool lp = b"
    "b \<notin> live s \<Longrightarrow> pages s = b # pages s'"
    "pool_free_list lp' (mem s') b \<noteq> [] \<Longrightarrow> m_freePool lp' = b"

proof -
  obtain b lp1 s1 where
    nf: "(p, lp', s') = nextFree b (lp1, s1)"
    and inv1: "pools_inv {b} (lp1, s1) \<or> pools_inv {} (lp1, s1)"
    and b: "b \<in> m_freePools lp1" and mf: "m_freePool lp1 = b"
    and ls1: "live_slots (lp1, s1) = live_slots (lp, s)"
    and fields: "m_headerPadding lp1 = m_headerPadding lp" "m_slotSize lp1 = m_slotSize lp"
      "m_poolSize lp1 = m_poolSize lp" "lg s1 = lg s"
    and cases: "m_freePool lp \<noteq> 0 \<and> b = m_freePool lp \<and> lp1 = lp \<and> s1 = s
     \<or> m_freePool lp = 0 \<and> m_freePools lp = {} \<and> b \<noteq> 0 \<and> pages s = b # pages s1
        \<and> live s1 = insert b (live s) \<and> b \<notin> live s
        \<and> pool_free_list lp1 (mem s1) b = slot_addrs lp b
        \<and> (\<forall>c\<in>live s. pool_free_list lp1 (mem s1) c = pool_free_list lp (mem s) c)"
    by (rule allocate_step [OF inv np al]) blast
  obtain F where inv1': "pools_inv F (lp1, s1)" and F: "F - {b} = {}"
    using inv1 by auto
  note D1 = pools_invD [OF inv1']
  have bl1: "b \<in> live s1" using D1(3) b by auto
  obtain x xs lp2 s2 where
    nf2: "nextFree b (lp1, s1) = (x, lp2, s2)"
    and fl1: "pool_free_list lp1 (mem s1) b = x # xs"
    and xz: "x \<noteq> 0"
    and inv2: "pools_inv (F - {b}) (lp2, s2)"
    and ls2: "live_slots (lp2, s2) = insert x (live_slots (lp1, s1))"
    and xl: "x \<notin> live_slots (lp1, s1)"
    and s2: "lg s2 = lg s1" "pages s2 = pages s1" "live s2 = live s1"
    and fl2: "pool_free_list lp2 (mem s2) b = xs"
    and fields2: "m_headerPadding lp2 = m_headerPadding lp1" "m_slotSize lp2 = m_slotSize lp1"
      "m_poolSize lp2 = m_poolSize lp1"
    and other2: "\<And>c. c \<in> live s1 \<Longrightarrow> c \<noteq> b \<Longrightarrow>
       pool_free_list lp2 (mem s2) c = pool_free_list lp1 (mem s1) c"
    and keep: "xs \<noteq> [] \<Longrightarrow> m_freePool lp2 = m_freePool lp1"
    by (rule nextFree_inv [OF inv1' b]) blast
  have eqs: "p = x" "lp' = lp2" "s' = s2" using nf nf2 by simp_all
  obtain fl where abs: "pool_abs lp1 (mem s1) b fl" using D1(7) [OF bl1] by auto
  have "pool_free_list lp1 (mem s1) b = fl" using abs by (rule pool_abs_free_list)
  then have "x \<in> set (slot_addrs lp1 b)" using abs fl1 by (auto simp: pool_abs_def)
  then have page: "x AND getPoolMask (lg s1) = b"
    by (rule page_of_slot [OF D1(1) D1(6) [OF bl1]])
  have sa: "slot_addrs lp1 = slot_addrs lp" by (rule slot_addrs_cong [OF fields(1-3)])
  from cases show thesis
  proof
    assume c: "m_freePool lp \<noteq> 0 \<and> b = m_freePool lp \<and> lp1 = lp \<and> s1 = s"
    then have bl: "b \<in> live s" using bl1 by simp
    show thesis
    proof (rule that [of b])
      show "p AND getPoolMask (lg s) = b" using page c by (simp add: eqs)
      show "b \<in> live s'" using bl c by (simp add: eqs s2)
      show "lp_inv (lp', s')" using inv2 by (simp add: eqs F lp_inv_def)
      show "pool_free_list lp (mem s) b = p # pool_free_list lp' (mem s') b"
        using fl1 fl2 c by (simp add: eqs)
      show "slot_addrs lp b = p # pool_free_list lp' (mem s') b" if "b \<notin> live s"
        using that bl by simp
      show "pool_free_list lp' (mem s') ca = pool_free_list lp (mem s) ca"
        if "ca \<in> live s" "ca \<noteq> b" for ca
        using other2 [of ca] that c by (simp add: eqs)
      show "live s' = insert b (live s)" using bl c by (auto simp: eqs s2)
      show "lg s' = lg s" using c by (simp add: eqs s2)
      show "m_headerPadding lp' = m_headerPadding lp" "m_slotSize lp' = m_slotSize lp"
        "m_poolSize lp' = m_poolSize lp"
        using fields fields2 by (simp_all add: eqs)
      show "pages s' = pages s \<and> m_freePool lp = b" using c by (simp add: eqs s2)
      show "pages s = b # pages s'" if "b \<notin> live s" using that bl by simp
      show "m_freePool lp' = b" if "pool_free_list lp' (mem s') b \<noteq> []"
        using that keep fl2 mf by (simp add: eqs)
    qed
  next
    assume c: "m_freePool lp = 0 \<and> m_freePools lp = {} \<and> b \<noteq> 0 \<and> pages s = b # pages s1
        \<and> live s1 = insert b (live s) \<and> b \<notin> live s
        \<and> pool_free_list lp1 (mem s1) b = slot_addrs lp b
        \<and> (\<forall>c\<in>live s. pool_free_list lp1 (mem s1) c = pool_free_list lp (mem s) c)"
    then have bnl: "b \<notin> live s" by simp
    show thesis
    proof (rule that [of b])
      show "p AND getPoolMask (lg s) = b" using page fields by (simp add: eqs)
      show "b \<in> live s'" using c by (simp add: eqs s2)
      show "lp_inv (lp', s')" using inv2 by (simp add: eqs F lp_inv_def)
      show "pool_free_list lp (mem s) b = p # pool_free_list lp' (mem s') b" if "b \<in> live s"
        using that bnl by simp
      show "slot_addrs lp b = p # pool_free_list lp' (mem s') b"
        using fl1 fl2 c by (simp add: eqs)
      show "pool_free_list lp' (mem s') ca = pool_free_list lp (mem s) ca"
        if "ca \<in> live s" "ca \<noteq> b" for ca
        using other2 [of ca] that c by (simp add: eqs)
      show "live s' = insert b (live s)" using c by (simp add: eqs s2)
      show "lg s' = lg s" using fields by (simp add: eqs s2)
      show "m_headerPadding lp' = m_headerPadding lp" "m_slotSize lp' = m_slotSize lp"
        "m_poolSize lp' = m_poolSize lp"
        using fields fields2 by (simp_all add: eqs)
      show "pages s' = pages s \<and> m_freePool lp = b" if "b \<in> live s" using that bnl by simp
      show "pages s = b # pages s'" using c by (simp add: eqs s2)
      show "m_freePool lp' = b" if "pool_free_list lp' (mem s') b \<noteq> []"
        using that keep fl2 mf by (simp add: eqs)
    qed
  qed

qed

lemma allocate_total:
  assumes inv: "lp_inv (lp, s)" and np: "next_page_ok s"
    and pg: "m_freePool lp = 0 \<Longrightarrow> pages s \<noteq> [] \<and> hd (pages s) \<noteq> 0"
  shows "\<exists>p st'. allocate (lp, s) = Inr (p, st')"

proof (cases "m_freePool lp = 0")
  case False
  then show ?thesis
    by (cases "nextFree (m_freePool lp) (lp, s)") (simp add: allocate_def)

next
  case True
  note D = pools_invD [OF inv [unfolded lp_inv_def]]
  have "0 \<notin> m_freePools lp" using D(3,5) by auto
  with True D(4) have "m_freePools lp = {}" by (auto split: if_splits)
  then have pf: "pool_first (m_freePools lp) = 0" by (simp add: pool_first_def)
  from pg [OF True] obtain b ps where ps: "pages s = b # ps" and bz: "b \<noteq> 0"
    by (cases "pages s") auto
  have al: "page_aligned (lg s) b" using np bz by (simp add: next_page_ok_def ps)
  have aa: "aligned_alloc s = (b, s\<lparr>pages := ps, live := insert b (live s)\<rparr>)"
    using bz by (simp add: aligned_alloc_def ps)
  obtain h' where "constructPoolHeader lp b (mem s) = Inr h'"
    using constructPoolHeader_ok [OF D(1) al bz] by blast
  then show ?thesis
    using True pf aa
    by (cases "nextFree b (lp\<lparr>m_freePools := pool_insert b (m_freePools lp), m_freePool := b\<rparr>,
                           s\<lparr>pages := ps, live := insert b (live s), mem := h'\<rparr>)")
       (simp add: allocate_def Let_def)

qed

lemma pages_fresh_next: "pages_fresh s \<Longrightarrow> next_page_ok s"
  by (auto simp: pages_fresh_def next_page_ok_def split: list.splits)

lemma tl_drop_suffix:
  assumes "fl = drop (n - length fl) xs" "fl = p # fl'" "length xs = n"
  shows "fl' = drop (n - length fl') xs \<and> n - length fl < n \<and> p = xs ! (n - length fl)
         \<and> fl' = drop (Suc (n - length fl)) xs"

proof -
  define k where "k = n - length fl"
  have fl: "fl = drop k xs" using assms(1) by (simp only: k_def)
  have len: "length fl = Suc (length fl')" using assms(2) by simp
  have "length fl = n - k" using fl assms(3) by simp
  with len have k: "k < n" and k': "Suc k = n - length fl'" by linarith+
  have "drop k xs = xs ! k # drop (Suc k) xs"
    using k assms(3) by (simp add: Cons_nth_drop_Suc)
  then have "p # fl' = xs ! k # drop (Suc k) xs"
    using fl assms(2) by simp
  then have "p = xs ! k" "fl' = drop (Suc k) xs" by simp_all
  then show ?thesis using k k' by (simp add: k_def)

qed

text \<open>One allocation from a state in which nothing was ever deallocated.\<close>

lemma allocate_pristine:
  assumes inv: "lp_inv (lp, s)" and pr: "pristine (lp, s)" and pf: "pages_fresh s"
    and al: "allocate (lp, s) = Inr (p, lp', s')"
  obtains b k where
    "p AND getPoolMask (lg s) = b" "b \<in> live s'" "k < unat (m_poolSize lp)"
    "p = slot_addrs lp b ! k"
    "pool_free_list lp' (mem s') b = drop (Suc k) (slot_addrs lp b)"
    "lp_inv (lp', s')" "pristine (lp', s')" "pages_fresh s'"
    "lg s' = lg s"
    "m_headerPadding lp' = m_headerPadding lp" "m_slotSize lp' = m_slotSize lp"
    "m_poolSize lp' = m_poolSize lp"

proof -
  obtain b where
    page: "p AND getPoolMask (lg s) = b" and bl': "b \<in> live s'"
    and inv': "lp_inv (lp', s')"
    and old: "b \<in> live s \<Longrightarrow> pool_free_list lp (mem s) b = p # pool_free_list lp' (mem s') b"
    and new: "b \<notin> live s \<Longrightarrow> slot_addrs lp b = p # pool_free_list lp' (mem s') b"
    and other: "\<And>c. c \<in> live s \<Longrightarrow> c \<noteq> b \<Longrightarrow>
       pool_free_list lp' (mem s') c = pool_free_list lp (mem s) c"
    and live': "live s' = insert b (live s)" and lg': "lg s' = lg s"
    and fields: "m_headerPadding lp' = m_headerPadding lp" "m_slotSize lp' = m_slotSize lp"
      "m_poolSize lp' = m_poolSize lp"
    and pg_old: "b \<in> live s \<Longrightarrow> pages s' = pages s \<and> m_freePool lp = b"
    and pg_new: "b \<notin> live s \<Longrightarrow> pages s = b # pages s'"
    and mf: "pool_free_list lp' (mem s') b \<noteq> [] \<Longrightarrow> m_freePool lp' = b"
    by (rule allocate_head [OF inv pages_fresh_next [OF pf] al]) blast
  let ?C = "unat (m_poolSize lp)"
  let ?fl' = "pool_free_list lp' (mem s') b"
  have sa: "slot_addrs lp' = slot_addrs lp" by (rule slot_addrs_cong [OF fields])
  have step: "?fl' = drop (?C - length ?fl') (slot_addrs lp b)
              \<and> (\<exists>k<?C. p = slot_addrs lp b ! k \<and> ?fl' = drop (Suc k) (slot_addrs lp b))"
  proof (cases "b \<in> live s")
    case True
    have "pool_free_list lp (mem s) b
            = drop (?C - length (pool_free_list lp (mem s) b)) (slot_addrs lp b)"
      using pr True by (simp add: pristine_def)
    from tl_drop_suffix [OF this old [OF True]] show ?thesis by auto
  next
    case False
    have "slot_addrs lp b = drop (?C - length (slot_addrs lp b)) (slot_addrs lp b)"
      by simp
    from tl_drop_suffix [OF this new [OF False]] show ?thesis by auto
  qed
  then obtain k where k: "k < ?C" "p = slot_addrs lp b ! k"
    "?fl' = drop (Suc k) (slot_addrs lp b)"
    by auto
  have pr': "pristine (lp', s')"
    unfolding pristine_def
  proof (clarsimp simp: live' fields sa, intro conjI ballI)
    show "?fl' = drop (?C - length ?fl') (slot_addrs lp b)" using step by simp
  next
    fix c assume c: "c \<in> live s"
    show "pool_free_list lp' (mem s') c
            = drop (?C - length (pool_free_list lp' (mem s') c)) (slot_addrs lp c)"
    proof (cases "c = b")
      case True
      then show ?thesis using step by simp
    next
      case False
      then show ?thesis using pr c other [OF c False] by (simp add: pristine_def)
    qed
  qed
  have pf': "pages_fresh s'"
  proof (cases "b \<in> live s")
    case True
    then have "pages s' = pages s" "live s' = live s"
      using pg_old live' by auto
    then show ?thesis using pf by (simp add: pages_fresh_def lg')
  next
    case False
    then have "pages s = b # pages s'" by (rule pg_new)
    then show ?thesis using pf by (auto simp: pages_fresh_def lg' live')
  qed
  from page bl' k inv' pr' pf' lg' fields show thesis by (rule that)

qed

lemma slot_addrs_Suc:
  assumes "Suc k < unat (m_poolSize lp)"
  shows "slot_addrs lp b ! Suc k = slot_addrs lp b ! k + m_slotSize lp"

proof -
  have "k < unat (m_poolSize lp)" using assms by simp
  with assms show ?thesis
    by (simp add: slot_addrs_def chain_nth algebra_simps)

qed

lemma allocate_twice:
  assumes inv: "lp_inv (lp, s)" and pr: "pristine (lp, s)" and pf: "pages_fresh s"
    and a1: "allocate (lp, s) = Inr (p, lp1, s1)"
    and a2: "allocate (lp1, s1) = Inr (q, lp2, s2)"
    and same: "p AND getPoolMask (lg s) = q AND getPoolMask (lg s)"
  shows "q = p + m_slotSize lp"

proof -
  obtain b k where
    page: "p AND getPoolMask (lg s) = b" and bl1: "b \<in> live s1"
    and k: "k < unat (m_poolSize lp)" and p: "p = slot_addrs lp b ! k"
    and fl1: "pool_free_list lp1 (mem s1) b = drop (Suc k) (slot_addrs lp b)"
    and inv1: "lp_inv (lp1, s1)" and pr1: "pristine (lp1, s1)" and pf1: "pages_fresh s1"
    and lg1: "lg s1 = lg s"
    and fields: "m_headerPadding lp1 = m_headerPadding lp" "m_slotSize lp1 = m_slotSize lp"
      "m_poolSize lp1 = m_poolSize lp"
    by (rule allocate_pristine [OF inv pr pf a1]) blast
  obtain b2 where
    page2: "q AND getPoolMask (lg s1) = b2"
    and old2: "b2 \<in> live s1 \<Longrightarrow>
                 pool_free_list lp1 (mem s1) b2 = q # pool_free_list lp2 (mem s2) b2"
    using allocate_head [OF inv1 pages_fresh_next [OF pf1] a2] by metis
  have "b2 = b" using page page2 same by (simp add: lg1)
  with old2 bl1 fl1 have d: "drop (Suc k) (slot_addrs lp b) = q # pool_free_list lp2 (mem s2) b"
    by simp
  then have "drop (Suc k) (slot_addrs lp b) \<noteq> []" by simp
  then have sk: "Suc k < unat (m_poolSize lp)" by simp
  then have "drop (Suc k) (slot_addrs lp b)
               = slot_addrs lp b ! Suc k # drop (Suc (Suc k)) (slot_addrs lp b)"
    by (simp add: Cons_nth_drop_Suc)
  with d have "q = slot_addrs lp b ! Suc k" by simp
  then show ?thesis using slot_addrs_Suc [OF sk] p by simp

qed

lemma allocate_n_pristine:
  assumes "lp_inv (lp, s)" "pristine (lp, s)" "pages_fresh s"
    and "allocate_n N (lp, s) = Inr (ps, lp', s')"
  shows "length ps = N \<and> distinct ps \<and> 0 \<notin> set ps
         \<and> set ps \<inter> live_slots (lp, s) = {}
         \<and> live_slots (lp', s') = set ps \<union> live_slots (lp, s)
         \<and> lp_inv (lp', s')
         \<and> (\<forall>i. Suc i < N \<longrightarrow>
               ps ! i AND getPoolMask (lg s) = ps ! Suc i AND getPoolMask (lg s) \<longrightarrow>
               ps ! Suc i = ps ! i + m_slotSize lp)"
  using assms

proof (induction N arbitrary: lp s ps)
  case 0
  then show ?case by auto

next
  case (Suc N)
  from Suc.prems(4) obtain p lp1 s1 ps1 where
    a1: "allocate (lp, s) = Inr (p, lp1, s1)"
    and an: "allocate_n N (lp1, s1) = Inr (ps1, lp', s')"
    and ps: "ps = p # ps1"
    by (auto split: sum.splits)
  obtain b k where
    inv1: "lp_inv (lp1, s1)" and pr1: "pristine (lp1, s1)" and pf1: "pages_fresh s1"
    and lg1: "lg s1 = lg s"
    and fields: "m_headerPadding lp1 = m_headerPadding lp" "m_slotSize lp1 = m_slotSize lp"
      "m_poolSize lp1 = m_poolSize lp"
    using allocate_pristine [OF Suc.prems(1-3) a1] by metis
  have ai: "p \<noteq> 0" "p \<notin> live_slots (lp, s)"
    "live_slots (lp1, s1) = insert p (live_slots (lp, s))"
    using allocate_inv0 [OF Suc.prems(1) _ a1] pages_fresh_next [OF Suc.prems(3)] by simp_all
  note IH = Suc.IH [OF inv1 pr1 pf1 an]
  have cons: "ps ! Suc i = ps ! i + m_slotSize lp"
    if i: "Suc i < Suc N"
      and same: "ps ! i AND getPoolMask (lg s) = ps ! Suc i AND getPoolMask (lg s)" for i
  proof (cases i)
    case 0
    with i obtain M where N: "N = Suc M" by (cases N) auto
    from an obtain q lp2 s2 ps2 where
      a2: "allocate (lp1, s1) = Inr (q, lp2, s2)" and ps1: "ps1 = q # ps2"
      unfolding N by (auto split: sum.splits)
    have "q = p + m_slotSize lp"
      using Suc.prems(1-3) a1 a2 same unfolding 0 ps ps1
      by (intro allocate_twice) simp_all
    then show ?thesis by (simp add: 0 ps ps1)
  next
    case (Suc j)
    then show ?thesis using IH i same by (simp add: ps lg1 fields)
  qed
  show ?case
    using IH ai cons by (auto simp: ps)

qed

subsection \<open>A single page as a stack\<close>

lemma one_pool_alloc:
  assumes op: "one_pool lp0 pg (x # xs) (lp, s)"
  shows "\<exists>st'. allocate (lp, s) = Inr (x, st') \<and> one_pool lp0 pg xs st'"

proof -
  have inv: "pools_inv {} (lp, s)" and live: "live s = {pg}"
    and fl: "pool_free_list lp (mem s) pg = x # xs"
    and fields: "m_headerPadding lp = m_headerPadding lp0" "m_slotSize lp = m_slotSize lp0"
      "m_poolSize lp = m_poolSize lp0"
    using op by (simp_all add: one_pool_def lp_inv_def)
  note D = pools_invD [OF inv]
  have pl: "pg \<in> live s" by (simp add: live)
  have "unat (mem s (occupiedSlots pg)) + length (x # xs) = unat (m_poolSize lp)"
    using lp_inv_free_list_slots(3) [OF inv [folded lp_inv_def] pl] by (simp add: fl)
  then have "mem s (occupiedSlots pg) \<noteq> m_poolSize lp" by auto
  then have b: "pg \<in> m_freePools lp" using D(9) [OF pl] by simp
  then have "m_freePool lp \<in> m_freePools lp" using D(4) by (auto split: if_splits)
  then have mf: "m_freePool lp = pg" using D(3) live by auto
  have pgz: "pg \<noteq> 0" using D(5) [OF pl] .
  obtain x' xs' lp' s' where
    nf: "nextFree pg (lp, s) = (x', lp', s')"
    and fl1: "pool_free_list lp (mem s) pg = x' # xs'"
    and xz: "x' \<noteq> 0"
    and inv': "pools_inv ({} - {pg}) (lp', s')"
    and ls: "live_slots (lp', s') = insert x' (live_slots (lp, s))"
    and xl: "x' \<notin> live_slots (lp, s)"
    and s': "lg s' = lg s" "pages s' = pages s" "live s' = live s"
    and fl2: "pool_free_list lp' (mem s') pg = xs'"
    and fields': "m_headerPadding lp' = m_headerPadding lp" "m_slotSize lp' = m_slotSize lp"
      "m_poolSize lp' = m_poolSize lp"
    and other: "\<And>c. c \<in> live s \<Longrightarrow> c \<noteq> pg \<Longrightarrow>
       pool_free_list lp' (mem s') c = pool_free_list lp (mem s) c"
    and keep: "xs' \<noteq> [] \<Longrightarrow> m_freePool lp' = m_freePool lp"
    by (rule nextFree_inv [OF inv b]) blast
  have eq: "x' = x" "xs' = xs" using fl fl1 by simp_all
  have "allocate (lp, s) = Inr (x, lp', s')"
    using mf pgz nf by (simp add: allocate_def eq)
  moreover have "one_pool lp0 pg xs (lp', s')"
    using inv' fl2 s' live fields fields' by (simp add: one_pool_def lp_inv_def eq)
  ultimately show ?thesis by blast

qed

lemma one_pool_dealloc:
  assumes op: "one_pool lp0 pg fl (lp, s)"
    and p: "p \<in> set (slot_addrs lp0 pg)" "p \<notin> set fl"
    and len: "length fl + 2 \<le> unat (m_poolSize lp0)"
  shows "one_pool lp0 pg (p # fl) (deallocate p (lp, s))"

proof -
  have inv: "lp_inv (lp, s)" and live: "live s = {pg}"
    and fl: "pool_free_list lp (mem s) pg = fl"
    and fields: "m_headerPadding lp = m_headerPadding lp0" "m_slotSize lp = m_slotSize lp0"
      "m_poolSize lp = m_poolSize lp0"
    using op by (simp_all add: one_pool_def)
  have sa: "slot_addrs lp = slot_addrs lp0" by (rule slot_addrs_cong [OF fields])
  have pl: "pg \<in> live s" by (simp add: live)
  have pls: "p \<in> live_slots (lp, s)"
    using p by (simp add: live_slots_def live allocated_def fl sa)
  have occ: "unat (mem s (occupiedSlots pg)) + length fl = unat (m_poolSize lp)"
    using lp_inv_free_list_slots(3) [OF inv pl] by (simp add: fl)
  have ne1: "mem s (occupiedSlots pg) \<noteq> 1"
  proof
    assume "mem s (occupiedSlots pg) = 1"
    then have "unat (mem s (occupiedSlots pg)) = 1" by simp
    with occ len show False by (simp add: fields)
  qed
  obtain lp' s' where res: "deallocate p (lp, s) = (lp', s')"
    by (cases "deallocate p (lp, s)")
  obtain b where
    bl: "b \<in> live s" and pa: "p \<in> allocated lp (mem s) b"
    and pb: "p AND getPoolMask (lg s) = b"
    and inv': "lp_inv (lp', s')"
    and ls: "live_slots (lp', s') = live_slots (lp, s) - {p}"
    and s': "lg s' = lg s" "pages s' = pages s"
    and fields': "m_headerPadding lp' = m_headerPadding lp" "m_slotSize lp' = m_slotSize lp"
      "m_poolSize lp' = m_poolSize lp"
    and last: "mem s (occupiedSlots b) = 1 \<Longrightarrow>
       live s' = live s - {b} \<and> mem s' = mem s \<and> allocated lp (mem s) b = {p}"
    and push: "mem s (occupiedSlots b) \<noteq> 1 \<Longrightarrow>
       live s' = live s \<and> m_freePool lp' = b
       \<and> pool_free_list lp' (mem s') b = p # pool_free_list lp (mem s) b
       \<and> (\<forall>c\<in>live s. c \<noteq> b \<longrightarrow>
              pool_free_list lp' (mem s') c = pool_free_list lp (mem s) c)"
    by (rule deallocate_step [OF inv pls res]) blast
  have "b = pg" using bl live by simp
  with push ne1 have "live s' = live s" "pool_free_list lp' (mem s') pg = p # fl"
    by (simp_all add: fl)
  then show ?thesis
    using inv' live fields fields' by (simp add: res one_pool_def)

qed

lemma one_pool_alloc':
  assumes "one_pool lp0 pg (x # xs) st"
  shows "\<exists>st'. allocate st = Inr (x, st') \<and> one_pool lp0 pg xs st'"
  using one_pool_alloc [of lp0 pg x xs "fst st" "snd st"] assms by simp

lemma one_pool_dealloc':
  assumes "one_pool lp0 pg fl st"
    and "p \<in> set (slot_addrs lp0 pg)" "p \<notin> set fl"
    and "length fl + 2 \<le> unat (m_poolSize lp0)"
  shows "one_pool lp0 pg (p # fl) (deallocate p st)"
  using one_pool_dealloc [of lp0 pg fl "fst st" "snd st" p] assms by simp

lemma one_pool_first:
  assumes g: "lp_geom (lg s) lp" and fresh: "m_freePools lp = {}" "m_freePool lp = 0"
    and live: "live s = {}" and pages: "pages s = pg # rest"
    and pg: "pg \<noteq> 0" "page_aligned (lg s) pg"
  shows "\<exists>st'. allocate (lp, s) = Inr (hd (slot_addrs lp pg), st')
               \<and> one_pool lp pg (tl (slot_addrs lp pg)) st'"

proof -
  have inv: "lp_inv (lp, s)" using g fresh live by (rule lp_inv_fresh)
  have np: "next_page_ok s" using pg live by (simp add: next_page_ok_def pages)
  obtain p st' where "allocate (lp, s) = Inr (p, st')"
    using allocate_total [OF inv np] pages pg by auto
  then obtain lp' s' where al: "allocate (lp, s) = Inr (p, lp', s')"
    by (cases st') auto
  obtain b where
    page: "p AND getPoolMask (lg s) = b" and bl': "b \<in> live s'"
    and inv': "lp_inv (lp', s')"
    and old: "b \<in> live s \<Longrightarrow> pool_free_list lp (mem s) b = p # pool_free_list lp' (mem s') b"
    and new: "b \<notin> live s \<Longrightarrow> slot_addrs lp b = p # pool_free_list lp' (mem s') b"
    and other: "\<And>c. c \<in> live s \<Longrightarrow> c \<noteq> b \<Longrightarrow>
       pool_free_list lp' (mem s') c = pool_free_list lp (mem s) c"
    and live': "live s' = insert b (live s)" and lg': "lg s' = lg s"
    and fields: "m_headerPadding lp' = m_headerPadding lp" "m_slotSize lp' = m_slotSize lp"
      "m_poolSize lp' = m_poolSize lp"
    and pg_old: "b \<in> live s \<Longrightarrow> pages s' = pages s \<and> m_freePool lp = b"
    and pg_new: "b \<notin> live s \<Longrightarrow> pages s = b # pages s'"
    and mf: "pool_free_list lp' (mem s') b \<noteq> [] \<Longrightarrow> m_freePool lp' = b"
    by (rule allocate_head [OF inv np al]) blast
  have bn: "b \<notin> live s" by (simp add: live)
  have "b = pg" using pg_new [OF bn] pages by simp
  with new [OF bn] have sl: "slot_addrs lp pg = p # pool_free_list lp' (mem s') pg" by simp
  then have "p = hd (slot_addrs lp pg)" "pool_free_list lp' (mem s') pg = tl (slot_addrs lp pg)"
    by simp_all
  then show ?thesis
    using al inv' live' live fields \<open>b = pg\<close> by (auto simp: one_pool_def)

qed

lemma five_slots:
  assumes "5 \<le> length xs"
  shows "\<exists>a b c d e r. xs = a # b # c # d # e # r"
  using assms by (auto simp: eval_nat_numeral Suc_le_length_iff)

lemma allocate_n_5:
  "allocate_n 5 st = allocate_n (Suc (Suc (Suc (Suc (Suc 0))))) st"
  by (simp add: eval_nat_numeral)

lemma interleaved_lifo0:
  assumes g: "lp_geom (lg s) lp" and fresh: "m_freePools lp = {}" "m_freePool lp = 0"
    and cap: "5 \<le> unat (m_poolSize lp)"
    and live: "live s = {}" and pages: "pages s = pg # rest"
    and pg: "pg \<noteq> 0" "page_aligned (lg s) pg"
  shows "\<exists>A B C D E. test_interleaving (lp, s) = Inr ([A, B, C, D, E], E, B)
                      \<and> distinct [A, B, C, D, E]"

proof -
  have d: "distinct (slot_addrs lp pg)" by (rule distinct_slot_addrs [OF g pg(2)])
  obtain A B C D E r where sl: "slot_addrs lp pg = A # B # C # D # E # r"
    using five_slots [of "slot_addrs lp pg"] cap by auto
  have len: "unat (m_poolSize lp) = 5 + length r"
    using arg_cong [OF sl, of length] by simp
  obtain st1 where a1: "allocate (lp, s) = Inr (A, st1)"
    and o1: "one_pool lp pg (B # C # D # E # r) st1"
    using one_pool_first [OF g fresh live pages pg] by (auto simp: sl)
  obtain st2 where a2: "allocate st1 = Inr (B, st2)"
    and o2: "one_pool lp pg (C # D # E # r) st2"
    using one_pool_alloc' [OF o1] by blast
  obtain st3 where a3: "allocate st2 = Inr (C, st3)"
    and o3: "one_pool lp pg (D # E # r) st3"
    using one_pool_alloc' [OF o2] by blast
  obtain st4 where a4: "allocate st3 = Inr (D, st4)"
    and o4: "one_pool lp pg (E # r) st4"
    using one_pool_alloc' [OF o3] by blast
  obtain st5 where a5: "allocate st4 = Inr (E, st5)"
    and o5: "one_pool lp pg r st5"
    using one_pool_alloc' [OF o4] by blast
  have an: "allocate_n 5 (lp, s) = Inr ([A, B, C, D, E], st5)"
    by (simp add: allocate_n_5 a1 a2 a3 a4 a5)
  have o6: "one_pool lp pg (B # r) (deallocate B st5)"
  proof (rule one_pool_dealloc' [OF o5])
    show "B \<in> set (slot_addrs lp pg)" by (simp add: sl)
    show "B \<notin> set r" using d by (simp add: sl)
    show "length r + 2 \<le> unat (m_poolSize lp)" using len by simp
  qed
  have o7: "one_pool lp pg (E # B # r) (deallocate E (deallocate B st5))"
  proof (rule one_pool_dealloc' [OF o6])
    show "E \<in> set (slot_addrs lp pg)" by (simp add: sl)
    show "E \<notin> set (B # r)" using d by (auto simp: sl)
    show "length (B # r) + 2 \<le> unat (m_poolSize lp)" using len by simp
  qed
  obtain st8 where a8: "allocate (deallocate E (deallocate B st5)) = Inr (E, st8)"
    and o8: "one_pool lp pg (B # r) st8"
    using one_pool_alloc' [OF o7] by blast
  obtain st9 where a9: "allocate st8 = Inr (B, st9)"
    using one_pool_alloc' [OF o8] by blast
  have "test_interleaving (lp, s) = Inr ([A, B, C, D, E], E, B)"
    by (simp add: test_interleaving_def an a8 a9)
  moreover have "distinct [A, B, C, D, E]" using d by (simp add: sl)
  ultimately show ?thesis by blast

qed

lemma allocate_pages_fresh:
  assumes inv: "lp_inv (lp, s)" and pf: "pages_fresh s"
    and al: "allocate (lp, s) = Inr (p, lp', s')"
  shows "pages_fresh s'"

proof -
  obtain b where
    page: "p AND getPoolMask (lg s) = b" and bl': "b \<in> live s'"
    and inv': "lp_inv (lp', s')"
    and old: "b \<in> live s \<Longrightarrow> pool_free_list lp (mem s) b = p # pool_free_list lp' (mem s') b"
    and new: "b \<notin> live s \<Longrightarrow> slot_addrs lp b = p # pool_free_list lp' (mem s') b"
    and other: "\<And>c. c \<in> live s \<Longrightarrow> c \<noteq> b \<Longrightarrow>
       pool_free_list lp' (mem s') c = pool_free_list lp (mem s) c"
    and live': "live s' = insert b (live s)" and lg': "lg s' = lg s"
    and fields: "m_headerPadding lp' = m_headerPadding lp" "m_slotSize lp' = m_slotSize lp"
      "m_poolSize lp' = m_poolSize lp"
    and pg_old: "b \<in> live s \<Longrightarrow> pages s' = pages s \<and> m_freePool lp = b"
    and pg_new: "b \<notin> live s \<Longrightarrow> pages s = b # pages s'"
    and mf: "pool_free_list lp' (mem s') b \<noteq> [] \<Longrightarrow> m_freePool lp' = b"
    by (rule allocate_head [OF inv pages_fresh_next [OF pf] al]) blast
  show ?thesis
  proof (cases "b \<in> live s")
    case True
    then have "pages s' = pages s" "live s' = live s"
      using pg_old live' by auto
    then show ?thesis using pf by (simp add: pages_fresh_def lg')
  next
    case False
    then have "pages s = b # pages s'" by (rule pg_new)
    then show ?thesis using pf by (auto simp: pages_fresh_def lg' live')
  qed

qed

lemma allocate_n_distinct:
  assumes "lp_inv st" "pages_fresh (snd st)" "allocate_n N st = Inr (ps, st')"
  shows "length ps = N \<and> distinct ps \<and> 0 \<notin> set ps
         \<and> set ps \<inter> live_slots st = {}
         \<and> live_slots st' = set ps \<union> live_slots st
         \<and> lp_inv st'"
  using assms

proof (induction N arbitrary: st ps)
  case 0
  then show ?case by auto

next
  case (Suc N)
  from Suc.prems(3) obtain p st1 ps1 where
    a1: "allocate st = Inr (p, st1)"
    and an: "allocate_n N st1 = Inr (ps1, st')"
    and ps: "ps = p # ps1"
    by (auto split: sum.splits)
  have np: "next_page_ok (snd st)" using Suc.prems(2) by (rule pages_fresh_next)
  have ai: "lp_inv st1" "p \<noteq> 0" "p \<notin> live_slots st"
    "live_slots st1 = insert p (live_slots st)"
    using allocate_inv0 [OF Suc.prems(1) np a1] by simp_all
  have "pages_fresh (snd st1)"
    using allocate_pages_fresh [of "fst st" "snd st" p "fst st1" "snd st1"] Suc.prems(1,2) a1
    by simp
  from Suc.IH [OF ai(1) this an] ai show ?case
    by (auto simp: ps)

qed

subsection \<open>Allocations in a row\<close>

text \<open>
  C8.  For \<open>LinkedPool<T>\<close>, from a state that satisfies the invariant and a system
  whose next pages are aligned, distinct and not in use: \<open>N\<close> allocations in a row
  return \<open>N\<close> distinct pointers, none of them null and none of them allocated before.
  If moreover no slot was ever deallocated (the free list of each page is the untouched
  tail of its slots), two pointers returned one after the other from the same page are
  one slot size apart.
\<close>

theorem allocations_distinct_adjacent:
  assumes "lp_inv st" and "pages_fresh (snd st)" and "allocate_n N st = Inr (ps, st')"
  shows "length ps = N \<and> distinct ps \<and> 0 \<notin> set ps \<and> set ps \<inter> live_slots st = {}
         \<and> (pristine st \<longrightarrow>
              (\<forall>i. Suc i < N \<longrightarrow>
                 ps ! i AND getPoolMask (lg (snd st)) = ps ! Suc i AND getPoolMask (lg (snd st))
                 \<longrightarrow> ps ! Suc i = ps ! i + m_slotSize (fst st)))"

proof -
  obtain lp s where st: "st = (lp, s)" by (cases st)
  obtain lp' s' where st': "st' = (lp', s')" by (cases st')
  have "pristine st \<longrightarrow>
          (\<forall>i. Suc i < N \<longrightarrow>
             ps ! i AND getPoolMask (lg (snd st)) = ps ! Suc i AND getPoolMask (lg (snd st))
             \<longrightarrow> ps ! Suc i = ps ! i + m_slotSize (fst st))"
    using allocate_n_pristine [of lp s N ps lp' s'] assms unfolding st st' by simp
  with allocate_n_distinct [OF assms] show ?thesis by simp

qed

lemma ex_alloc4:
  "(case allocate_n 4 ex_st of
      Inr (ps, st') \<Rightarrow> ps = [0x10010, 0x10410, 0x10810, 0x20010]
    | Inl f \<Rightarrow> False)"
  by code_simp

lemma ex_inv: "lp_inv ex_st \<and> pages_fresh (snd ex_st) \<and> pristine ex_st"
  by code_simp

theorem allocations_distinct_adjacent_witness:
  "lp_inv ex_st \<and> pages_fresh (snd ex_st) \<and> pristine ex_st
   \<and> (\<exists>st'. allocate_n 4 ex_st = Inr ([0x10010, 0x10410, 0x10810, 0x20010], st'))
   \<and> distinct [0x10010, 0x10410, 0x10810, 0x20010 :: addr]
   \<and> (0x10410 :: addr) = 0x10010 + m_slotSize (fst ex_st)"

proof -
  obtain st' where a: "allocate_n 4 ex_st = Inr ([0x10010, 0x10410, 0x10810, 0x20010], st')"
    using ex_alloc4 by (auto split: sum.splits)
  have same: "(0x10010 :: addr) AND getPoolMask (lg (snd ex_st))
                = 0x10410 AND getPoolMask (lg (snd ex_st))"
    by (simp add: ex_st_def fresh_sys_def getPoolMask_def getPageSize_def)
  from ex_inv have h: "lp_inv ex_st" "pages_fresh (snd ex_st)" "pristine ex_st" by simp_all
  from allocations_distinct_adjacent [OF h(1,2) a] h(3) same
  have "[0x10010, 0x10410, 0x10810, 0x20010 :: addr] ! Suc 0
          = [0x10010, 0x10410, 0x10810, 0x20010] ! 0 + m_slotSize (fst ex_st)"
    by (elim conjE) (drule mp, assumption, drule spec [of _ 0], simp)
  with a h show ?thesis by auto

qed

text \<open>
  After deallocations the second part fails.  Of the three slots of a page, all
  allocated, the first and then the third are deallocated; the next two allocations
  return the third and then the first: the same page, two slots apart.
\<close>

theorem allocations_adjacent_counterexample:
  "(case allocate_n 3 ex_st of
      Inl f \<Rightarrow> False
    | Inr (ps, st) \<Rightarrow>
        (case allocate_n 2 (deallocate (ps ! 2) (deallocate (ps ! 0) st)) of
           Inl f \<Rightarrow> False
         | Inr (qs, st') \<Rightarrow>
             lp_inv (deallocate (ps ! 2) (deallocate (ps ! 0) st))
             \<and> qs = [0x10810, 0x10010]
             \<and> qs ! 0 AND getPoolMask 12 = qs ! 1 AND getPoolMask 12
             \<and> m_slotSize ex_lp = 1024
             \<and> qs ! 1 \<noteq> qs ! 0 + m_slotSize ex_lp
             \<and> qs ! 0 \<noteq> qs ! 1 + m_slotSize ex_lp))"
  by code_simp

subsection \<open>The pool invariant\<close>

text \<open>
  C7.  For \<open>LinkedPool<T>\<close>: the page that \<open>constructPoolHeader\<close> has set up
  satisfies the pool invariant, with no slot occupied and every slot in the free list;
  the invariant of the pool set is preserved by \<open>allocate\<close> and by \<open>deallocate\<close>
  of an allocated slot; and under the invariant, for every page in use, the count of
  occupied slots and the length of the free list add up to the capacity, the free list
  has no duplicate, and each of its nodes is a slot of the page.
\<close>

theorem pool_invariant_preserved:
  "(lp_geom n lp \<and> pg \<noteq> 0 \<and> page_aligned n pg \<longrightarrow>
      (\<exists>h'. constructPoolHeader lp pg h = Inr h' \<and> pool_inv lp h' pg
            \<and> h' (occupiedSlots pg) = 0 \<and> pool_free_list lp h' pg = slot_addrs lp pg))
   \<and> (lp_inv st \<and> next_page_ok (snd st) \<and> allocate st = Inr (p, st') \<longrightarrow> lp_inv st')
   \<and> (lp_inv st \<and> q \<in> live_slots st \<longrightarrow> lp_inv (deallocate q st))
   \<and> (lp_inv st \<longrightarrow>
        (\<forall>pool\<in>live (snd st).
           unat (mem (snd st) (occupiedSlots pool))
             + length (pool_free_list (fst st) (mem (snd st)) pool) = unat (m_poolSize (fst st))
           \<and> distinct (pool_free_list (fst st) (mem (snd st)) pool)
           \<and> set (pool_free_list (fst st) (mem (snd st)) pool)
                \<subseteq> set (slot_addrs (fst st) pool)))"

proof (intro conjI impI ballI)
  assume a: "lp_geom n lp \<and> pg \<noteq> 0 \<and> page_aligned n pg"
  then obtain h' where h': "constructPoolHeader lp pg h = Inr h'"
    "pool_abs lp h' pg (slot_addrs lp pg)" "h' (occupiedSlots pg) = 0"
    using constructPoolHeader_ok [of n lp pg h] by blast
  from h'(2) have "pool_inv lp h' pg" "pool_free_list lp h' pg = slot_addrs lp pg"
    by (auto simp: pool_inv_abs pool_abs_free_list)
  with h' show "\<exists>h'. constructPoolHeader lp pg h = Inr h' \<and> pool_inv lp h' pg
            \<and> h' (occupiedSlots pg) = 0 \<and> pool_free_list lp h' pg = slot_addrs lp pg"
    by blast

next
  assume "lp_inv st \<and> next_page_ok (snd st) \<and> allocate st = Inr (p, st')"
  then show "lp_inv st'" using allocate_inv0 [of st p st'] by simp

next
  assume "lp_inv st \<and> q \<in> live_slots st"
  then show "lp_inv (deallocate q st)" using deallocate_inv0 [of st q] by simp

next
  fix pool assume inv: "lp_inv st" and pl: "pool \<in> live (snd st)"
  obtain lp1 s1 where st: "st = (lp1, s1)" by (cases st)
  note F = lp_inv_free_list_slots [OF inv [unfolded st] pl [unfolded st snd_conv]]
  show "unat (mem (snd st) (occupiedSlots pool))
             + length (pool_free_list (fst st) (mem (snd st)) pool) = unat (m_poolSize (fst st))"
    using F(3) by (simp add: st)
  show "distinct (pool_free_list (fst st) (mem (snd st)) pool)"
    using F(2) by (simp add: st)
  show "set (pool_free_list (fst st) (mem (snd st)) pool) \<subseteq> set (slot_addrs (fst st) pool)"
    using F(1) by (simp add: st)

qed

lemma ex_alloc1:
  "(case allocate ex_st of Inr (p, st') \<Rightarrow> p = 0x10010 | Inl f \<Rightarrow> False)"
  by code_simp

lemma ex_geom: "lp_geom 12 ex_lp \<and> page_aligned 12 0x10000 \<and> next_page_ok (snd ex_st)"
  by code_simp

theorem pool_invariant_preserved_witness:
  "lp_geom 12 ex_lp \<and> page_aligned 12 0x10000
   \<and> (\<exists>h'. constructPoolHeader ex_lp 0x10000 (\<lambda>a. 0) = Inr h' \<and> pool_inv ex_lp h' 0x10000)
   \<and> lp_inv ex_st \<and> next_page_ok (snd ex_st)
   \<and> (\<exists>st'. allocate ex_st = Inr (0x10010, st') \<and> lp_inv st'
          \<and> 0x10010 \<in> live_slots st' \<and> lp_inv (deallocate 0x10010 st')
          \<and> (\<exists>pool. pool \<in> live (snd st')
                \<and> unat (mem (snd st') (occupiedSlots pool))
                    + length (pool_free_list (fst st') (mem (snd st')) pool)
                    = unat (m_poolSize (fst st'))))"

proof -
  obtain st' where a: "allocate ex_st = Inr (0x10010, st')"
    using ex_alloc1 by (auto split: sum.splits)
  have g: "lp_geom 12 ex_lp" "page_aligned 12 0x10000" "next_page_ok (snd ex_st)"
    using ex_geom by simp_all
  have inv: "lp_inv ex_st" using ex_inv by simp
  have c: "\<exists>h'. constructPoolHeader ex_lp 0x10000 (\<lambda>a. 0) = Inr h' \<and> pool_inv ex_lp h' 0x10000"
    using pool_invariant_preserved [of 12 ex_lp "0x10000" "\<lambda>a. 0" ex_st "0x10010" st' 0] g
    by auto
  have inv': "lp_inv st'"
    using pool_invariant_preserved [of 12 ex_lp "0x10000" "\<lambda>a. 0" ex_st "0x10010" st' 0] inv g a
    by simp
  have l: "0x10010 \<in> live_slots st'"
    using allocate_inv0 [OF inv g(3) a] by simp
  have d: "lp_inv (deallocate 0x10010 st')"
    using pool_invariant_preserved [of 12 ex_lp "0x10000" "\<lambda>a. 0" st' "0x10010" st' "0x10010"]
      inv' l by simp
  obtain pool where pl: "pool \<in> live (snd st')"
    using l by (cases st') (auto simp: live_slots_def)
  have "unat (mem (snd st') (occupiedSlots pool))
          + length (pool_free_list (fst st') (mem (snd st')) pool) = unat (m_poolSize (fst st'))"
    using pool_invariant_preserved [of 12 ex_lp "0x10000" "\<lambda>a. 0" st' "0x10010" st' "0x10010"]
      inv' pl by blast
  with g c inv a inv' l d pl show ?thesis by blast

qed

subsection \<open>The interleaving test\<close>

text \<open>
  C5.  The sequence of \<open>test_interleaving\<close> on a \<open>LinkedPool<T>\<close> that has no
  page yet and whose pages hold at least five slots, when the system hands out an
  aligned page: five allocations return five distinct slots \<open>A\<close>, \<open>B\<close>, \<open>C\<close>,
  \<open>D\<close>, \<open>E\<close>; after \<open>deallocate(B)\<close> and \<open>deallocate(E)\<close> the next allocation
  returns \<open>E\<close> and the one after it returns \<open>B\<close>.
\<close>

theorem interleaved_lifo:
  assumes "lp_geom (lg s) lp" and "m_freePools lp = {}" and "m_freePool lp = 0"
    and "5 \<le> unat (m_poolSize lp)"
    and "live s = {}" and "pages s = pg # rest"
    and "pg \<noteq> 0" and "page_aligned (lg s) pg"
  shows "\<exists>A B C D E. test_interleaving (lp, s) = Inr ([A, B, C, D, E], E, B)
                      \<and> distinct [A, B, C, D, E]"
  using assms by (rule interleaved_lifo0)

lemma ex16: "lp_geom 12 ex_lp16 \<and> m_freePools ex_lp16 = {} \<and> m_freePool ex_lp16 = 0
     \<and> m_slotSize ex_lp16 = 16 \<and> 5 \<le> unat (m_poolSize ex_lp16)"
  by code_simp

theorem interleaved_lifo_witness:
  "lp_geom 12 ex_lp16 \<and> m_freePools ex_lp16 = {} \<and> m_freePool ex_lp16 = 0
   \<and> m_slotSize ex_lp16 = 16 \<and> 5 \<le> unat (m_poolSize ex_lp16)
   \<and> page_aligned 12 0x10000
   \<and> (\<exists>A B C D E. test_interleaving (ex_lp16, fresh_sys 12 [0x10000])
                       = Inr ([A, B, C, D, E], E, B)
                    \<and> distinct [A, B, C, D, E])"
  using interleaved_lifo [of "fresh_sys 12 [0x10000]" ex_lp16 "0x10000" "[]"] ex16 ex_geom
  by (simp add: fresh_sys_def)

lemma example_run_512:
  "(case test_interleaving (LinkedPool_new 12 512 8, fresh_sys 12 [0x10000]) of
      Inr (objs, F, G) \<Rightarrow>
        objs = [0x10010, 0x10210, 0x10410, 0x10610, 0x10810] \<and> F = 0x10810 \<and> G = 0x10210
    | Inl f \<Rightarrow> False)"
  by code_simp

section \<open>Properties of \<open>GlobalLinkedPool2\<close>\<close>

lemma POOL_MASK_eq: "POOL_MASK n = getPoolMask n"
  by (simp add: POOL_MASK_def getPoolMask_def getPageSize_def mask_eq_exp_minus_1
      flip: minus_exp_eq_not_mask)

lemma slot_addrs_map_G2:
  "slot_addrs_G2 g b = map (\<lambda>k. b + of_nat (slot_off_G2 g k)) [0..<unat (m_poolSize_G2 g)]"
  by (simp add: slot_addrs_G2_def chain_map slot_off_G2_def sizeof_PoolHeaderG2_def algebra_simps)

lemma slot_off_bound_G2:
  assumes "g2_geom n g" "k < unat (m_poolSize_G2 g)"
  shows "slot_off_G2 g k + unat (m_sizeOfObjects g) \<le> 2 ^ n"

proof -
  have "Suc k \<le> unat (m_poolSize_G2 g)" using assms(2) by simp
  then have "Suc k * unat (m_sizeOfObjects g) \<le> unat (m_poolSize_G2 g) * unat (m_sizeOfObjects g)"
    by (rule mult_le_mono1)
  then show ?thesis using assms(1) by (simp add: g2_geom_def slot_off_G2_def)

qed

lemma slot_off_less_G2:
  assumes "g2_geom n g" "k < unat (m_poolSize_G2 g)"
  shows "slot_off_G2 g k < 2 ^ n"
  using slot_off_bound_G2 [OF assms] assms(1) by (simp add: g2_geom_def)

lemma slot_off_inj_G2:
  assumes "g2_geom n g" "slot_off_G2 g j = slot_off_G2 g k"
  shows "j = k"
  using assms by (simp add: g2_geom_def slot_off_G2_def)

lemma in_slot_addrs_G2:
  "x \<in> set (slot_addrs_G2 g b) \<longleftrightarrow> (\<exists>k < unat (m_poolSize_G2 g). x = b + of_nat (slot_off_G2 g k))"
  by (auto simp: slot_addrs_map_G2)

lemma geom_page_large_G2:
  assumes "g2_geom n g"
  shows "(32::nat) < 2 ^ n"

proof -
  have "1 * 8 \<le> unat (m_poolSize_G2 g) * unat (m_sizeOfObjects g)"
    using assms by (intro mult_le_mono) (simp_all add: g2_geom_def)
  then show ?thesis using assms by (simp add: g2_geom_def)

qed

lemma header_field_G2:
  assumes "g2_geom n g" "page_aligned n b" "off < 32"
  shows "(b + of_nat off) AND getPoolMask n = b" "b + of_nat off \<notin> set (slot_addrs_G2 g b)"

proof -
  have n: "n < 64" using assms(1) by (simp add: g2_geom_def)
  have l: "off < 2 ^ n"
    using geom_page_large_G2 [OF assms(1)] assms(3) by simp
  show "(b + of_nat off) AND getPoolMask n = b"
    using n assms(2) l by (rule page_of_offset)
  show "b + of_nat off \<notin> set (slot_addrs_G2 g b)"
  proof
    assume "b + of_nat off \<in> set (slot_addrs_G2 g b)"
    then obtain k where k: "k < unat (m_poolSize_G2 g)"
      "b + of_nat off = b + of_nat (slot_off_G2 g k)"
      by (auto simp: in_slot_addrs_G2)
    then have "off = slot_off_G2 g k"
      using page_offset_eq_iff [OF n assms(2) assms(2) l slot_off_less_G2 [OF assms(1) k(1)]]
      by simp
    with assms(3) show False by (simp add: slot_off_G2_def)
  qed

qed

lemma header_fields_G2:
  assumes "g2_geom n g" "page_aligned n b"
  shows "isPool b AND getPoolMask n = b" "sizeOfPool b AND getPoolMask n = b"
    "sizeOfObjects b AND getPoolMask n = b" "head_next_G2 b AND getPoolMask n = b"
    "isPool b \<notin> set (slot_addrs_G2 g b)" "sizeOfPool b \<notin> set (slot_addrs_G2 g b)"
    "sizeOfObjects b \<notin> set (slot_addrs_G2 g b)" "head_next_G2 b \<notin> set (slot_addrs_G2 g b)"
  using header_field_G2 [OF assms, of 0] header_field_G2 [OF assms, of 8]
    header_field_G2 [OF assms, of 16] header_field_G2 [OF assms, of 24]
  by (simp_all add: isPool_def sizeOfPool_def sizeOfObjects_def head_next_G2_def)

lemma page_of_slot_G2:
  assumes "g2_geom n g" "page_aligned n b" "x \<in> set (slot_addrs_G2 g b)"
  shows "x AND getPoolMask n = b"

proof -
  from assms(3) obtain k where k: "k < unat (m_poolSize_G2 g)" "x = b + of_nat (slot_off_G2 g k)"
    by (auto simp: in_slot_addrs_G2)
  have "n < 64" using assms(1) by (simp add: g2_geom_def)
  then show ?thesis
    unfolding k(2) using assms(2) slot_off_less_G2 [OF assms(1) k(1)] by (rule page_of_offset)

qed

lemma page_of_header_G2:
  assumes "g2_geom n g" "page_aligned n b"
  shows "sizeOfPool b AND getPoolMask n = b" "head_next_G2 b AND getPoolMask n = b"
  using header_fields_G2 [OF assms] by simp_all

lemma distinct_slot_addrs_G2:
  assumes "g2_geom n g" "page_aligned n b"
  shows "distinct (slot_addrs_G2 g b)"

proof -
  have n: "n < 64" using assms(1) by (simp add: g2_geom_def)
  have "inj_on (\<lambda>k. b + of_nat (slot_off_G2 g k)) {..<unat (m_poolSize_G2 g)}"
  proof (rule inj_onI)
    fix j k
    assume j: "j \<in> {..<unat (m_poolSize_G2 g)}" and k: "k \<in> {..<unat (m_poolSize_G2 g)}"
      and eq: "b + of_nat (slot_off_G2 g j) = b + of_nat (slot_off_G2 g k)"
    have "slot_off_G2 g j = slot_off_G2 g k"
      using eq page_offset_eq_iff [OF n assms(2) assms(2), of "slot_off_G2 g j" "slot_off_G2 g k"]
        slot_off_less_G2 [OF assms(1)] j k by simp
    then show "j = k" by (rule slot_off_inj_G2 [OF assms(1)])
  qed
  then show ?thesis
    by (simp add: slot_addrs_map_G2 distinct_map atLeast_upt)

qed

lemma header_not_slot_G2:
  assumes "g2_geom n g" "page_aligned n b"
  shows "sizeOfPool b \<notin> set (slot_addrs_G2 g b)" "head_next_G2 b \<notin> set (slot_addrs_G2 g b)"
  using header_fields_G2 [OF assms] by simp_all

lemma slot_nonnull_G2:
  assumes "g2_geom n g" "page_aligned n b" "b \<noteq> 0"
  shows "0 \<notin> set (slot_addrs_G2 g b)"

proof
  assume "0 \<in> set (slot_addrs_G2 g b)"
  then have "0 AND getPoolMask n = b"
    by (rule page_of_slot_G2 [OF assms(1,2)])
  with assms(3) show False by simp

qed

lemma length_slot_addrs_G2 [simp]: "length (slot_addrs_G2 g b) = unat (m_poolSize_G2 g)"
  by (simp add: slot_addrs_G2_def)

lemma pool_abs_free_list_G2:
  assumes "pool_abs_G2 g h b fl"
  shows "pool_free_list_G2 g h b = fl"

proof -
  have p: "path h (h (head_next_G2 b)) fl"
    and l: "length fl < Suc (unat (m_poolSize_G2 g))"
    using assms by (simp_all add: pool_abs_G2_def)
  show ?thesis
    unfolding pool_free_list_G2_def using p l by (rule path_free_list)

qed

lemma pool_inv_abs_G2: "pool_inv_G2 g h b \<longleftrightarrow> (\<exists>fl. pool_abs_G2 g h b fl)"

proof
  assume "pool_inv_G2 g h b"
  then have "pool_abs_G2 g h b (pool_free_list_G2 g h b)"
    by (simp add: pool_inv_G2_def pool_abs_G2_def Let_def)
  then show "\<exists>fl. pool_abs_G2 g h b fl" ..

next
  assume "\<exists>fl. pool_abs_G2 g h b fl"
  then obtain fl where fl: "pool_abs_G2 g h b fl" ..
  then have "pool_free_list_G2 g h b = fl" by (rule pool_abs_free_list_G2)
  with fl show "pool_inv_G2 g h b"
    by (simp add: pool_inv_G2_def pool_abs_G2_def Let_def)

qed

lemma pool_abs_allocated_G2:
  "pool_abs_G2 g h b fl \<Longrightarrow> allocated_G2 g h b = set (slot_addrs_G2 g b) - set fl"
  by (simp add: allocated_G2_def pool_abs_free_list_G2)

lemma slot_addrs_cong_G2:
  "m_sizeOfObjects g' = m_sizeOfObjects g \<Longrightarrow>
   m_poolSize_G2 g' = m_poolSize_G2 g \<Longrightarrow> slot_addrs_G2 g' = slot_addrs_G2 g"
  by (simp add: slot_addrs_G2_def fun_eq_iff)

lemma pool_free_list_cong_G2:
  "m_poolSize_G2 g' = m_poolSize_G2 g \<Longrightarrow> pool_free_list_G2 g' = pool_free_list_G2 g"
  by (simp add: pool_free_list_G2_def fun_eq_iff)

lemma pool_abs_cong_G2:
  "m_sizeOfObjects g' = m_sizeOfObjects g \<Longrightarrow>
   m_poolSize_G2 g' = m_poolSize_G2 g \<Longrightarrow> pool_abs_G2 g' = pool_abs_G2 g"
  by (simp add: pool_abs_G2_def fun_eq_iff slot_addrs_G2_def)

lemma allocated_cong_G2:
  "m_sizeOfObjects g' = m_sizeOfObjects g \<Longrightarrow>
   m_poolSize_G2 g' = m_poolSize_G2 g \<Longrightarrow> allocated_G2 g' = allocated_G2 g"
  by (simp add: allocated_G2_def fun_eq_iff slot_addrs_G2_def pool_free_list_G2_def)

lemma g2_geom_cong:
  "m_sizeOfObjects g' = m_sizeOfObjects g \<Longrightarrow>
   m_poolSize_G2 g' = m_poolSize_G2 g \<Longrightarrow> g2_geom n g' = g2_geom n g"
  by (simp add: g2_geom_def)

lemma occ_neq_head_G2: "sizeOfPool b \<noteq> head_next_G2 b"
  by (simp add: sizeOfPool_def head_next_G2_def)

lemma header_distinct_G2:
  "isPool b \<noteq> sizeOfPool b" "isPool b \<noteq> sizeOfObjects b" "isPool b \<noteq> head_next_G2 b"
  "sizeOfPool b \<noteq> sizeOfObjects b" "sizeOfPool b \<noteq> head_next_G2 b"
  "sizeOfObjects b \<noteq> head_next_G2 b"
  by (simp_all add: isPool_def sizeOfPool_def sizeOfObjects_def head_next_G2_def)

lemma pool_abs_frame_G2:
  assumes "pool_abs_G2 g h b fl"
    and "h' (sizeOfPool b) = h (sizeOfPool b)"
    and "h' (head_next_G2 b) = h (head_next_G2 b)"
    and "\<And>x. x \<in> set fl \<Longrightarrow> h' x = h x"
  shows "pool_abs_G2 g h' b fl"

proof -
  have "path h' (h (head_next_G2 b)) fl = path h (h (head_next_G2 b)) fl"
    using assms(4) by (rule path_cong)
  with assms(1-3) show ?thesis by (simp add: pool_abs_G2_def)

qed

lemma pool_abs_other_page_G2:
  assumes g: "g2_geom n g" and al: "page_aligned n b'" and ne: "b' \<noteq> b"
    and so: "same_outside n b h h'" and abs: "pool_abs_G2 g h b' fl"
  shows "pool_abs_G2 g h' b' fl"

proof (rule pool_abs_frame_G2 [OF abs])
  show "h' (sizeOfPool b') = h (sizeOfPool b')"
    using so page_of_header_G2(1) [OF g al] ne by (simp add: same_outside_def)
  show "h' (head_next_G2 b') = h (head_next_G2 b')"
    using so page_of_header_G2(2) [OF g al] ne by (simp add: same_outside_def)
  fix x assume "x \<in> set fl"
  then have "x \<in> set (slot_addrs_G2 g b')" using abs by (auto simp: pool_abs_G2_def)
  then have "x AND getPoolMask n = b'" by (rule page_of_slot_G2 [OF g al])
  then show "h' x = h x" using so ne by (simp add: same_outside_def)

qed

lemma pool_abs_pop_G2:
  assumes g: "g2_geom n g" and al: "page_aligned n b" and abs: "pool_abs_G2 g h b (x # xs)"
  shows "pool_abs_G2 g (h(head_next_G2 b := h x, sizeOfPool b := h (sizeOfPool b) + 1)) b xs"

proof -
  let ?h' = "h(head_next_G2 b := h x, sizeOfPool b := h (sizeOfPool b) + 1)"
  have sub: "set xs \<subseteq> set (slot_addrs_G2 g b)" and d: "distinct xs"
    and p: "path h (h x) xs"
    and occ: "unat (h (sizeOfPool b)) + Suc (length xs) = unat (m_poolSize_G2 g)"
    using abs by (auto simp: pool_abs_G2_def)
  have nh: "head_next_G2 b \<notin> set xs" and no: "sizeOfPool b \<notin> set xs"
    using header_not_slot_G2 [OF g al] sub by auto
  have "path ?h' (h x) xs"
    using p nh no by (simp add: path_fun_upd)
  moreover have "?h' (head_next_G2 b) = h x"
    using occ_neq_head_G2 [of b] by simp
  moreover have "unat (h (sizeOfPool b) + 1) = Suc (unat (h (sizeOfPool b)))"
  proof (rule unat_plus_one_less)
    show "unat (h (sizeOfPool b)) < unat (m_poolSize_G2 g)" using occ by simp
  qed
  ultimately show ?thesis
    using d sub occ by (simp add: pool_abs_G2_def)

qed

lemma pool_abs_push_G2:
  assumes g: "g2_geom n g" and al: "page_aligned n b" and abs: "pool_abs_G2 g h b fl"
    and p: "p \<in> set (slot_addrs_G2 g b)" "p \<notin> set fl" and nz: "b \<noteq> 0"
  shows "pool_abs_G2 g (h(p := h (head_next_G2 b), head_next_G2 b := p,
                       sizeOfPool b := h (sizeOfPool b) - 1)) b (p # fl)"

proof -
  let ?h' = "h(p := h (head_next_G2 b), head_next_G2 b := p,
               sizeOfPool b := h (sizeOfPool b) - 1)"
  have sub: "set fl \<subseteq> set (slot_addrs_G2 g b)" and d: "distinct fl"
    and pa: "path h (h (head_next_G2 b)) fl"
    and occ: "unat (h (sizeOfPool b)) + length fl = unat (m_poolSize_G2 g)"
    using abs by (auto simp: pool_abs_G2_def)
  have nh: "head_next_G2 b \<notin> set fl" and no: "sizeOfPool b \<notin> set fl"
    and ph: "p \<noteq> head_next_G2 b" and po: "p \<noteq> sizeOfPool b"
    using header_not_slot_G2 [OF g al] sub p(1) by auto
  have pz: "p \<noteq> 0"
    using slot_nonnull_G2 [OF g al nz] p(1) by auto
  have "path ?h' (h (head_next_G2 b)) fl"
    using pa nh no p(2) by (simp add: path_fun_upd)
  moreover have "?h' p = h (head_next_G2 b)" "?h' (head_next_G2 b) = p"
    using ph po occ_neq_head_G2 [of b] by simp_all
  moreover have "unat (h (sizeOfPool b) - 1) + Suc (length fl) = unat (m_poolSize_G2 g)"
  proof -
    have "card (set fl) < card (set (slot_addrs_G2 g b))"
      using sub p by (intro psubset_card_mono) auto
    then have "length fl < unat (m_poolSize_G2 g)"
      using d distinct_slot_addrs_G2 [OF g al] by (simp add: distinct_card)
    with occ have pos: "0 < unat (h (sizeOfPool b))" by simp
    then have "unat (h (sizeOfPool b) - 1) = unat (h (sizeOfPool b)) - 1"
      by (rule unat_minus_one_pos)
    with occ pos show ?thesis by simp
  qed
  ultimately show ?thesis
    using d sub p pz by (simp add: pool_abs_G2_def)

qed

lemma pools_invI_G2:
  assumes "g2_geom (lg s) g" "finite (live s)" "m_freePools_G2 g \<subseteq> live s"
    and "if m_freePools_G2 g = {} then m_freePool_G2 g = 0 else m_freePool_G2 g \<in> m_freePools_G2 g"
    and "\<And>pool. pool \<in> live s \<Longrightarrow> pool \<noteq> 0 \<and> page_aligned (lg s) pool"
    and "\<And>pool. pool \<in> live s \<Longrightarrow> \<exists>fl. pool_abs_G2 g (mem s) pool fl"
    and "\<And>pool. pool \<in> live s \<Longrightarrow> pool \<notin> F \<Longrightarrow> mem s (sizeOfPool pool) \<noteq> 0"
    and "\<And>pool. pool \<in> live s \<Longrightarrow>
           (pool \<in> m_freePools_G2 g \<longleftrightarrow> mem s (sizeOfPool pool) \<noteq> m_poolSize_G2 g)"
  shows "pools_inv_G2 F (g, s)"
  using assms unfolding pools_inv_G2_def pool_inv_abs_G2 by auto

lemma pools_invD_G2:
  assumes "pools_inv_G2 F (g, s)"
  shows "g2_geom (lg s) g" "finite (live s)" "m_freePools_G2 g \<subseteq> live s"
    and "if m_freePools_G2 g = {} then m_freePool_G2 g = 0 else m_freePool_G2 g \<in> m_freePools_G2 g"
    and "\<And>pool. pool \<in> live s \<Longrightarrow> pool \<noteq> 0"
    and "\<And>pool. pool \<in> live s \<Longrightarrow> page_aligned (lg s) pool"
    and "\<And>pool. pool \<in> live s \<Longrightarrow> \<exists>fl. pool_abs_G2 g (mem s) pool fl"
    and "\<And>pool. pool \<in> live s \<Longrightarrow> pool \<notin> F \<Longrightarrow> mem s (sizeOfPool pool) \<noteq> 0"
    and "\<And>pool. pool \<in> live s \<Longrightarrow>
           (pool \<in> m_freePools_G2 g \<longleftrightarrow> mem s (sizeOfPool pool) \<noteq> m_poolSize_G2 g)"
  using assms unfolding pools_inv_G2_def pool_inv_abs_G2 by auto

lemma nextFree_eq_G2:
  assumes "mem s (head_next_G2 b) = x" "x \<noteq> 0"
  shows "nextFree_G2 b (g, s) =
    (x,
     (if mem s (sizeOfPool b) + 1 = m_poolSize_G2 g
      then g\<lparr>m_freePools_G2 := pool_remove b (m_freePools_G2 g),
              m_freePool_G2 := pool_first (pool_remove b (m_freePools_G2 g))\<rparr>
      else g),
     s\<lparr>mem := (mem s)(head_next_G2 b := mem s x,
                       sizeOfPool b := mem s (sizeOfPool b) + 1)\<rparr>)"
  using assms by (simp add: nextFree_G2_def Let_def occ_neq_head_G2)

lemma same_outside_header_upd_G2:
  assumes "g2_geom n g" "page_aligned n b"
  shows "same_outside n b h (h(head_next_G2 b := v, sizeOfPool b := w))"
  using page_of_header_G2 [OF assms] by (auto simp: same_outside_def)

lemma other_page_slot_G2:
  assumes g: "g2_geom n g" and al: "page_aligned n b" "page_aligned n b'" and ne: "b \<noteq> b'"
    and x: "x \<in> set (slot_addrs_G2 g b)"
  shows "x \<notin> set (slot_addrs_G2 g b')"
  using page_of_slot_G2 [OF g al(1) x] page_of_slot_G2 [OF g al(2), of x] ne by auto

lemma nextFree_inv_G2:
  assumes inv: "pools_inv_G2 F (g, s)" and b: "b \<in> m_freePools_G2 g"
  obtains x xs g' s' where
    "nextFree_G2 b (g, s) = (x, g', s')"
    "pool_free_list_G2 g (mem s) b = x # xs"
    "x \<noteq> 0"
    "pools_inv_G2 (F - {b}) (g', s')"
    "live_slots_G2 (g', s') = insert x (live_slots_G2 (g, s))"
    "x \<notin> live_slots_G2 (g, s)"
    "lg s' = lg s" "pages s' = pages s" "live s' = live s"
    "pool_free_list_G2 g' (mem s') b = xs"
    "m_sizeOfObjects g' = m_sizeOfObjects g"
    "m_poolSize_G2 g' = m_poolSize_G2 g"
    "\<And>c. c \<in> live s \<Longrightarrow> c \<noteq> b \<Longrightarrow>
       pool_free_list_G2 g' (mem s') c = pool_free_list_G2 g (mem s) c"
    "xs \<noteq> [] \<Longrightarrow> m_freePool_G2 g' = m_freePool_G2 g"

proof -
  let ?n = "lg s" and ?h = "mem s"
  note D = pools_invD_G2 [OF inv]
  have bl: "b \<in> live s" using D(3) b by auto
  have g: "g2_geom ?n g" by (rule D(1))
  have al: "page_aligned ?n b" and bz: "b \<noteq> 0" using D(5,6) bl by auto
  obtain fl where fl: "pool_abs_G2 g ?h b fl" using D(7) [OF bl] by auto
  have "?h (sizeOfPool b) \<noteq> m_poolSize_G2 g" using D(9) [OF bl] b by simp
  then have "unat (?h (sizeOfPool b)) \<noteq> unat (m_poolSize_G2 g)"
    by (simp add: word_unat_eq_iff)
  then have "fl \<noteq> []" using fl by (auto simp: pool_abs_G2_def)
  then obtain x xs where xs: "fl = x # xs" by (cases fl) auto
  have hx: "?h (head_next_G2 b) = x" and xz: "x \<noteq> 0"
    using fl unfolding xs by (auto simp: pool_abs_G2_def)
  have xslot: "x \<in> set (slot_addrs_G2 g b)" and xnew: "x \<notin> set xs"
    using fl unfolding xs by (auto simp: pool_abs_G2_def)
  define h' where "h' = ?h(head_next_G2 b := ?h x, sizeOfPool b := ?h (sizeOfPool b) + 1)"
  define g' where "g' = (if ?h (sizeOfPool b) + 1 = m_poolSize_G2 g
      then g\<lparr>m_freePools_G2 := pool_remove b (m_freePools_G2 g),
              m_freePool_G2 := pool_first (pool_remove b (m_freePools_G2 g))\<rparr>
      else g)"
  define s' where "s' = s\<lparr>mem := h'\<rparr>"
  have nf: "nextFree_G2 b (g, s) = (x, g', s')"
    unfolding g'_def s'_def h'_def by (rule nextFree_eq_G2 [OF hx xz])
  have fields: "m_sizeOfObjects g' = m_sizeOfObjects g"
    "m_poolSize_G2 g' = m_poolSize_G2 g"
    by (simp_all add: g'_def)
  have s'_simps: "lg s' = lg s" "pages s' = pages s" "live s' = live s" "mem s' = h'"
    by (simp_all add: s'_def)
  have abs_eq: "pool_abs_G2 g' = pool_abs_G2 g" by (rule pool_abs_cong_G2 [OF fields])
  have pop: "pool_abs_G2 g h' b xs"
    using pool_abs_pop_G2 [OF g al fl [unfolded xs]] by (simp add: h'_def)
  have so: "same_outside ?n b ?h h'"
    unfolding h'_def by (rule same_outside_header_upd_G2 [OF g al])
  have other: "pool_abs_G2 g h' c cl" if "c \<in> live s" "c \<noteq> b" "pool_abs_G2 g ?h c cl" for c cl
    using g D(6) [OF that(1)] that(2) so that(3) by (rule pool_abs_other_page_G2)
  have occ_b: "h' (sizeOfPool b) = ?h (sizeOfPool b) + 1"
    by (simp add: h'_def)
  have occ_other: "h' (sizeOfPool c) = ?h (sizeOfPool c)" if "c \<in> live s" "c \<noteq> b" for c
    using so page_of_header_G2(1) [OF g D(6) [OF that(1)]] that(2) by (simp add: same_outside_def)
  have occ_nz: "h' (sizeOfPool b) \<noteq> 0"
  proof -
    have "unat (?h (sizeOfPool b)) < unat (m_poolSize_G2 g)"
      using fl unfolding xs by (simp add: pool_abs_G2_def)
    then have "unat (?h (sizeOfPool b) + 1) = Suc (unat (?h (sizeOfPool b)))"
      by (rule unat_plus_one_less)
    then show ?thesis unfolding occ_b by (auto simp: unat_eq_0 simp del: unsigned_eq_0_iff)
  qed
  have fin: "finite (m_freePools_G2 g)" using D(2,3) by (rule rev_finite_subset)
  have fp': "m_freePools_G2 g' = (if h' (sizeOfPool b) = m_poolSize_G2 g
                                 then m_freePools_G2 g - {b} else m_freePools_G2 g)"
    by (simp add: g'_def occ_b pool_remove_def)
  have inv': "pools_inv_G2 (F - {b}) (g', s')"
  proof (rule pools_invI_G2)
    show "g2_geom (lg s') g'"
      using g by (simp add: s'_simps g2_geom_cong [OF fields])
    show "finite (live s')" using D(2) by (simp add: s'_simps)
    show "m_freePools_G2 g' \<subseteq> live s'"
      using D(3) by (auto simp: fp' s'_simps)
    show "if m_freePools_G2 g' = {} then m_freePool_G2 g' = 0 else m_freePool_G2 g' \<in> m_freePools_G2 g'"
    proof (cases "?h (sizeOfPool b) + 1 = m_poolSize_G2 g")
      case True
      then have "m_freePools_G2 g' = m_freePools_G2 g - {b}"
        "m_freePool_G2 g' = pool_first (m_freePools_G2 g - {b})"
        by (simp_all add: g'_def pool_remove_def)
      moreover have "finite (m_freePools_G2 g - {b})" using fin by simp
      then have "if m_freePools_G2 g - {b} = {} then pool_first (m_freePools_G2 g - {b}) = 0
                 else pool_first (m_freePools_G2 g - {b}) \<in> m_freePools_G2 g - {b}"
        by (rule pool_first_spec)
      ultimately show ?thesis by (simp only:)
    next
      case False
      then show ?thesis using D(4) b by (auto simp: g'_def)
    qed
    show "pool \<noteq> 0 \<and> page_aligned (lg s') pool" if "pool \<in> live s'" for pool
      using that D(5,6) by (simp add: s'_simps)
    show "\<exists>fl. pool_abs_G2 g' (mem s') pool fl" if pl: "pool \<in> live s'" for pool
    proof (cases "pool = b")
      case True
      then show ?thesis using pop by (auto simp: abs_eq s'_simps)
    next
      case False
      have pl': "pool \<in> live s" using pl by (simp add: s'_simps)
      obtain cl where "pool_abs_G2 g ?h pool cl" using D(7) [OF pl'] by auto
      then have "pool_abs_G2 g h' pool cl" using other pl' False by simp
      then show ?thesis by (auto simp: abs_eq s'_simps)
    qed
    show "mem s' (sizeOfPool pool) \<noteq> 0" if "pool \<in> live s'" "pool \<notin> F - {b}" for pool
    proof (cases "pool = b")
      case True
      then show ?thesis using occ_nz by (simp add: s'_simps)
    next
      case False
      then show ?thesis using that D(8) [of pool] occ_other [of pool] by (simp add: s'_simps)
    qed
    show "pool \<in> m_freePools_G2 g' \<longleftrightarrow> mem s' (sizeOfPool pool) \<noteq> m_poolSize_G2 g'"
      if "pool \<in> live s'" for pool
    proof (cases "pool = b")
      case True
      then show ?thesis using b by (simp add: fp' s'_simps fields)
    next
      case False
      then show ?thesis
        using that D(9) [of pool] occ_other [of pool] by (simp add: fp' s'_simps fields)
    qed
  qed
  have fl_b: "pool_free_list_G2 g ?h b = x # xs"
    using pool_abs_free_list_G2 [OF fl] xs by simp
  have fl_b': "pool_free_list_G2 g' h' b = xs"
    using pool_abs_free_list_G2 [OF pop] by (simp add: pool_free_list_cong_G2 [OF fields(2)])
  have alloc_b: "allocated_G2 g' h' b = insert x (allocated_G2 g ?h b)"
    using xslot xnew
    by (auto simp: allocated_cong_G2 [OF fields] pool_abs_allocated_G2 [OF pop]
        pool_abs_allocated_G2 [OF fl] xs)
  have alloc_other: "allocated_G2 g' h' c = allocated_G2 g ?h c"
    if c: "c \<in> live s" "c \<noteq> b" for c
  proof -
    obtain cl where cl: "pool_abs_G2 g ?h c cl" using D(7) [OF c(1)] by auto
    from other [OF c cl] cl show ?thesis
      by (simp add: allocated_cong_G2 [OF fields] pool_abs_allocated_G2)
  qed
  have ls: "live_slots_G2 (g', s') = insert x (live_slots_G2 (g, s))"
  proof -
    have "(\<Union>c\<in>live s. allocated_G2 g' h' c)
            = allocated_G2 g' h' b \<union> (\<Union>c\<in>live s - {b}. allocated_G2 g' h' c)"
      using bl by auto
    also have "\<dots> = insert x (allocated_G2 g ?h b) \<union> (\<Union>c\<in>live s - {b}. allocated_G2 g ?h c)"
      using alloc_other by (simp add: alloc_b)
    also have "\<dots> = insert x (\<Union>c\<in>live s. allocated_G2 g ?h c)"
      using bl by auto
    finally show ?thesis by (simp add: live_slots_G2_def s'_simps)
  qed
  have xl: "x \<notin> live_slots_G2 (g, s)"
  proof -
    have "x \<notin> allocated_G2 g ?h c" if "c \<in> live s" for c
    proof (cases "c = b")
      case True
      then show ?thesis by (simp add: pool_abs_allocated_G2 [OF fl] xs)
    next
      case False
      then have "x \<notin> set (slot_addrs_G2 g c)"
        using other_page_slot_G2 [OF g al D(6) [OF that] _ xslot] by auto
      then show ?thesis by (simp add: allocated_G2_def)
    qed
    then show ?thesis by (auto simp: live_slots_G2_def)
  qed
  have fl_other: "pool_free_list_G2 g' (mem s') c = pool_free_list_G2 g ?h c"
    if c: "c \<in> live s" "c \<noteq> b" for c
  proof -
    obtain cl where cl: "pool_abs_G2 g ?h c cl" using D(7) [OF c(1)] by auto
    from other [OF c cl] cl show ?thesis
      by (simp add: pool_free_list_cong_G2 [OF fields(2)] pool_abs_free_list_G2 s'_simps)
  qed
  have keep: "m_freePool_G2 g' = m_freePool_G2 g" if "xs \<noteq> []"
  proof -
    have "unat (h' (sizeOfPool b)) + length xs = unat (m_poolSize_G2 g)"
      using pop by (simp add: pool_abs_G2_def)
    moreover have "0 < length xs" using that by simp
    ultimately have "unat (h' (sizeOfPool b)) \<noteq> unat (m_poolSize_G2 g)" by linarith
    then have "?h (sizeOfPool b) + 1 \<noteq> m_poolSize_G2 g"
      unfolding occ_b by auto
    then show ?thesis by (simp add: g'_def)
  qed
  show thesis
    using nf fl_b xz inv' ls xl s'_simps(1-3) fl_b' [folded s'_simps(4)] fields fl_other keep
    by (rule that)

qed

lemma Suc_unat_poolSize_minus1_G2:
  assumes "g2_geom n g"
  shows "Suc (unat (m_poolSize_G2 g - 1)) = unat (m_poolSize_G2 g)"

proof -
  have "0 < unat (m_poolSize_G2 g)" using assms by (simp add: g2_geom_def)
  then have "unat (m_poolSize_G2 g - 1) = unat (m_poolSize_G2 g) - 1"
    by (rule unat_minus_one_pos)
  with \<open>0 < unat (m_poolSize_G2 g)\<close> show ?thesis by simp

qed

lemma init_pool_G2_ok:
  assumes g: "g2_geom n g" and al: "page_aligned n pg" and nz: "pg \<noteq> 0"
  obtains h' where
    "init_pool_G2 g pg h = Inr h'"
    "pool_abs_G2 g h' pg (slot_addrs_G2 g pg)"
    "h' (sizeOfPool pg) = 0"
    "same_outside n pg h h'"
    "h' (sizeOfObjects pg) = m_sizeOfObjects g"
    "h' (isPool pg) = IS_POOL"

proof -
  define first where "first = pg + sizeof_PoolHeaderG2"
  define k where "k = unat (m_poolSize_G2 g - 1)"
  define h2 where "h2 = h(isPool pg := IS_POOL, sizeOfPool pg := 0,
                          sizeOfObjects pg := m_sizeOfObjects g, head_next_G2 pg := first)"
  define r where "r = link_slots k first (m_sizeOfObjects g) h2"
  define h' where "h' = (snd r)(fst r := 0)"
  have sk: "Suc k = unat (m_poolSize_G2 g)"
    unfolding k_def by (rule Suc_unat_poolSize_minus1_G2 [OF g])
  have sl: "slot_addrs_G2 g pg = chain first (m_sizeOfObjects g) (Suc k)"
    by (simp only: slot_addrs_G2_def first_def sk)
  have c: "init_pool_G2 g pg h = Inr h'"
    using nz by (simp add: init_pool_G2_def Let_def h'_def r_def h2_def k_def first_def
        split: prod.splits)
  have d: "distinct (chain first (m_sizeOfObjects g) (Suc k))"
    using distinct_slot_addrs_G2 [OF g al] unfolding sl .
  have z: "0 \<notin> set (chain first (m_sizeOfObjects g) (Suc k))"
    using slot_nonnull_G2 [OF g al nz] unfolding sl .
  have p: "path h' first (slot_addrs_G2 g pg)"
    unfolding h'_def r_def sl using d z by (rule link_slots_path)
  have last_in: "fst r \<in> set (slot_addrs_G2 g pg)"
    unfolding sl r_def by (simp only: link_slots_fst chain_Suc_snoc) simp
  have frame: "h' x = h2 x" if "x \<notin> set (slot_addrs_G2 g pg)" for x
  proof -
    have "x \<noteq> fst r" using that last_in by auto
    moreover have "x \<notin> set (chain first (m_sizeOfObjects g) k)"
      using that unfolding sl by (simp only: chain_Suc_snoc) simp
    then have "snd r x = h2 x" unfolding r_def by (rule link_slots_frame)
    ultimately show ?thesis by (simp add: h'_def)
  qed
  have hd: "h' (head_next_G2 pg) = first" and oc: "h' (sizeOfPool pg) = 0"
    and so_f: "h' (sizeOfObjects pg) = m_sizeOfObjects g" and ip: "h' (isPool pg) = IS_POOL"
    using frame header_fields_G2(5-8) [OF g al] header_distinct_G2 [of pg]
    by (simp_all add: h2_def)
  have abs: "pool_abs_G2 g h' pg (slot_addrs_G2 g pg)"
    using p distinct_slot_addrs_G2 [OF g al] by (simp add: pool_abs_G2_def hd oc)
  have so: "same_outside n pg h h'"
    unfolding same_outside_def
  proof (intro allI impI)
    fix x assume x: "x AND getPoolMask n \<noteq> pg"
    then have "x \<notin> set (slot_addrs_G2 g pg)"
      using page_of_slot_G2 [OF g al] by auto
    then have "h' x = h2 x" by (rule frame)
    moreover have "x \<noteq> sizeOfPool pg" "x \<noteq> head_next_G2 pg"
      "x \<noteq> isPool pg" "x \<noteq> sizeOfObjects pg"
      using x header_fields_G2(1-4) [OF g al] by auto
    ultimately show "h' x = h x" by (simp add: h2_def)
  qed
  from c abs oc so so_f ip show thesis by (rule that)

qed

lemma init_pool_G2_null: "init_pool_G2 g 0 h = Inl NullDeref"
  by (simp add: init_pool_G2_def)

lemma allocated_fresh_G2:
  "pool_abs_G2 g h pg (slot_addrs_G2 g pg) \<Longrightarrow> allocated_G2 g h pg = {}"
  by (simp add: pool_abs_allocated_G2)

lemma allocate_step_G2:
  assumes inv: "g2_inv (g, s)" and np: "next_page_ok s"
    and al: "allocate_G2 (g, s) = Inr (p, g', s')"
  obtains b x xs g1 s1 where
    "(p, g', s') = nextFree_G2 b (g1, s1)"
    "pools_inv_G2 {b} (g1, s1) \<or> pools_inv_G2 {} (g1, s1)"
    "b \<in> m_freePools_G2 g1"
    "m_freePool_G2 g1 = b"
    "live_slots_G2 (g1, s1) = live_slots_G2 (g, s)"
    "m_sizeOfObjects g1 = m_sizeOfObjects g"
    "m_poolSize_G2 g1 = m_poolSize_G2 g" "lg s1 = lg s"
    "m_freePool_G2 g \<noteq> 0 \<and> b = m_freePool_G2 g \<and> g1 = g \<and> s1 = s
     \<or> m_freePool_G2 g = 0 \<and> m_freePools_G2 g = {} \<and> b \<noteq> 0 \<and> pages s = b # pages s1
        \<and> live s1 = insert b (live s) \<and> b \<notin> live s
        \<and> pool_free_list_G2 g1 (mem s1) b = slot_addrs_G2 g b
        \<and> (\<forall>c\<in>live s. pool_free_list_G2 g1 (mem s1) c = pool_free_list_G2 g (mem s) c)"

proof -
  note D = pools_invD_G2 [OF inv [unfolded g2_inv_def]]
  have zl: "0 \<notin> live s" using D(5) by auto
  then have zf: "0 \<notin> m_freePools_G2 g" using D(3) by auto
  have fin: "finite (m_freePools_G2 g)" using D(2,3) by (rule rev_finite_subset)
  show thesis
  proof (cases "m_freePool_G2 g = 0")
    case False
    then have ne: "m_freePools_G2 g \<noteq> {}" using D(4) by (auto split: if_splits)
    then have b: "m_freePool_G2 g \<in> m_freePools_G2 g" using D(4) by simp
    have "(p, g', s') = nextFree_G2 (m_freePool_G2 g) (g, s)"
      using al False by (simp add: allocate_G2_def)
    then show ?thesis
      using inv [unfolded g2_inv_def] b False by (intro that [of "m_freePool_G2 g" g s]) simp_all
  next
    case True
    then have emp: "m_freePools_G2 g = {}" using D(4) zf by (auto split: if_splits)
    then have pf: "pool_first (m_freePools_G2 g) = 0" by (simp add: pool_first_def)
    obtain pg s1 where aa: "aligned_alloc s = (pg, s1)" by (cases "aligned_alloc s")
    have al': "(case init_pool_G2 g pg (mem s1) of
                 Inl f \<Rightarrow> Inl f
               | Inr h \<Rightarrow> Inr (nextFree_G2 pg (g\<lparr>m_freePools_G2 := pool_insert pg (m_freePools_G2 g),
                                               m_freePool_G2 := pg\<rparr>, s1\<lparr>mem := h\<rparr>)))
               = Inr (p, g', s')"
      using al True emp aa by (simp add: allocate_G2_def Let_def)
    have pgz: "pg \<noteq> 0"
    proof
      assume "pg = 0"
      then show False using al' by (simp add: init_pool_G2_null)
    qed
    obtain ps where ps: "pages s = pg # ps" and s1: "s1 = s\<lparr>pages := ps, live := insert pg (live s)\<rparr>"
      using aa pgz by (auto simp: aligned_alloc_def split: list.splits)
    have pal: "page_aligned (lg s) pg" and pnl: "pg \<notin> live s"
      using np pgz by (simp_all add: next_page_ok_def ps)
    obtain h' where h': "init_pool_G2 g pg (mem s1) = Inr h'"
      "pool_abs_G2 g h' pg (slot_addrs_G2 g pg)" "h' (sizeOfPool pg) = 0"
      "same_outside (lg s) pg (mem s1) h'"
      using init_pool_G2_ok [OF D(1) pal pgz] by blast
    define g1 where "g1 = g\<lparr>m_freePools_G2 := pool_insert pg (m_freePools_G2 g), m_freePool_G2 := pg\<rparr>"
    define s2 where "s2 = s1\<lparr>mem := h'\<rparr>"
    have res: "(p, g', s') = nextFree_G2 pg (g1, s2)"
      using al' by (simp add: h'(1) g1_def s2_def)
    have fields: "m_sizeOfObjects g1 = m_sizeOfObjects g"
      "m_poolSize_G2 g1 = m_poolSize_G2 g"
      by (simp_all add: g1_def)
    have s2_simps: "lg s2 = lg s" "pages s2 = ps" "live s2 = insert pg (live s)" "mem s2 = h'"
      "mem s1 = mem s"
      by (simp_all add: s2_def s1)
    have abs_eq: "pool_abs_G2 g1 = pool_abs_G2 g" by (rule pool_abs_cong_G2 [OF fields])
    have other: "pool_abs_G2 g h' c cl" if "c \<in> live s" "pool_abs_G2 g (mem s) c cl" for c cl
    proof -
      have "c \<noteq> pg" using that(1) pnl by auto
      with D(1) D(6) [OF that(1)] show ?thesis
        using h'(4) that(2) unfolding s2_simps by (rule pool_abs_other_page_G2)
    qed
    have occ_other: "h' (sizeOfPool c) = mem s (sizeOfPool c)" if "c \<in> live s" for c
    proof -
      have "c \<noteq> pg" using that pnl by auto
      then show ?thesis
        using h'(4) page_of_header_G2(1) [OF D(1) D(6) [OF that]]
        by (simp add: same_outside_def s2_simps)
    qed
    have cap: "m_poolSize_G2 g \<noteq> 0"
      using D(1) by (auto simp: g2_geom_def)
    have inv1: "pools_inv_G2 {pg} (g1, s2)"
    proof (rule pools_invI_G2)
      show "g2_geom (lg s2) g1" using D(1) by (simp add: s2_simps g2_geom_cong [OF fields])
      show "finite (live s2)" using D(2) by (simp add: s2_simps)
      show "m_freePools_G2 g1 \<subseteq> live s2"
        using D(3) by (auto simp: g1_def pool_insert_def s2_simps)
      show "if m_freePools_G2 g1 = {} then m_freePool_G2 g1 = 0 else m_freePool_G2 g1 \<in> m_freePools_G2 g1"
        by (simp add: g1_def pool_insert_def)
      show "pool \<noteq> 0 \<and> page_aligned (lg s2) pool" if "pool \<in> live s2" for pool
        using that D(5,6) pgz pal by (auto simp: s2_simps)
      show "\<exists>fl. pool_abs_G2 g1 (mem s2) pool fl" if pl: "pool \<in> live s2" for pool
      proof (cases "pool = pg")
        case True
        then show ?thesis using h'(2) by (auto simp: abs_eq s2_simps)
      next
        case False
        then have pl': "pool \<in> live s" using pl by (simp add: s2_simps)
        obtain cl where "pool_abs_G2 g (mem s) pool cl" using D(7) [OF pl'] by auto
        then have "pool_abs_G2 g h' pool cl" using other pl' by simp
        then show ?thesis by (auto simp: abs_eq s2_simps)
      qed
      show "mem s2 (sizeOfPool pool) \<noteq> 0" if "pool \<in> live s2" "pool \<notin> {pg}" for pool
        using that D(8) [of pool] occ_other [of pool] by (simp add: s2_simps)
      show "pool \<in> m_freePools_G2 g1 \<longleftrightarrow> mem s2 (sizeOfPool pool) \<noteq> m_poolSize_G2 g1"
        if "pool \<in> live s2" for pool
      proof (cases "pool = pg")
        case True
        then show ?thesis using cap h'(3)
          by (auto simp: g1_def pool_insert_def s2_simps)
      next
        case False
        then show ?thesis
          using that D(9) [of pool] occ_other [of pool] emp
          by (auto simp: g1_def pool_insert_def s2_simps)
      qed
    qed
    have fl_other: "pool_free_list_G2 g1 (mem s2) c = pool_free_list_G2 g (mem s) c"
      if c: "c \<in> live s" for c
    proof -
      obtain cl where cl: "pool_abs_G2 g (mem s) c cl" using D(7) [OF c] by auto
      from other [OF c cl] cl show ?thesis
        by (simp add: pool_free_list_cong_G2 [OF fields(2)] pool_abs_free_list_G2 s2_simps)
    qed
    have fl_pg: "pool_free_list_G2 g1 (mem s2) pg = slot_addrs_G2 g pg"
      using pool_abs_free_list_G2 [OF h'(2)]
      by (simp add: pool_free_list_cong_G2 [OF fields(2)] s2_simps)
    have ls: "live_slots_G2 (g1, s2) = live_slots_G2 (g, s)"
    proof -
      have "allocated_G2 g1 h' pg = {}"
        using allocated_fresh_G2 [OF h'(2)] by (simp add: allocated_cong_G2 [OF fields])
      moreover have "allocated_G2 g1 h' c = allocated_G2 g (mem s) c" if "c \<in> live s" for c
        using fl_other [OF that]
        by (simp add: allocated_G2_def slot_addrs_cong_G2 [OF fields] s2_simps)
      ultimately show ?thesis
        by (simp add: live_slots_G2_def s2_simps)
    qed
    show ?thesis
      using res inv1 True emp pgz ps pnl fl_pg fl_other ls fields
      by (intro that [of pg g1 s2]) (simp_all add: g1_def pool_insert_def s2_simps)
  qed

qed

lemma allocate_inv0_G2:
  assumes "g2_inv st" "next_page_ok (snd st)" "allocate_G2 st = Inr (p, st')"
  shows "g2_inv st' \<and> p \<noteq> 0 \<and> p \<notin> live_slots_G2 st \<and> live_slots_G2 st' = insert p (live_slots_G2 st)"

proof -
  obtain g s where st: "st = (g, s)" by (cases st)
  obtain g' s' where st': "st' = (g', s')" by (cases st')
  from assms obtain b g1 s1 where
    nf: "(p, g', s') = nextFree_G2 b (g1, s1)"
    and inv1: "pools_inv_G2 {b} (g1, s1) \<or> pools_inv_G2 {} (g1, s1)"
    and b: "b \<in> m_freePools_G2 g1"
    and ls: "live_slots_G2 (g1, s1) = live_slots_G2 (g, s)"
    unfolding st st' by (auto elim: allocate_step_G2)
  from inv1 show ?thesis
  proof
    assume "pools_inv_G2 {b} (g1, s1)"
    from nextFree_inv_G2 [OF this b] nf ls show ?thesis
      unfolding st st' g2_inv_def by (metis Diff_cancel Pair_inject)
  next
    assume "pools_inv_G2 {} (g1, s1)"
    from nextFree_inv_G2 [OF this b] nf ls show ?thesis
      unfolding st st' g2_inv_def by (metis Diff_empty Diff_cancel empty_Diff Pair_inject)
  qed

qed

lemma same_outside_slot_upd_G2:
  assumes "g2_geom n g" "page_aligned n b" "p \<in> set (slot_addrs_G2 g b)"
  shows "same_outside n b h (h(p := u, head_next_G2 b := v, sizeOfPool b := w))"
  using page_of_header_G2 [OF assms(1,2)] page_of_slot_G2 [OF assms]
  by (auto simp: same_outside_def)

lemma live_slotsE_G2:
  assumes "p \<in> live_slots_G2 (g, s)"
  obtains b where "b \<in> live s" "p \<in> allocated_G2 g (mem s) b"
  using assms by (auto simp: live_slots_G2_def)

lemma word_minus1_eq0: "(x - 1 = 0) = (x = (1::size_t))"
  by auto

lemma deallocate_G2_eq:
  assumes "p \<noteq> head_next_G2 b" "p \<noteq> sizeOfPool b" "p AND POOL_MASK (lg s) = b"
  shows "deallocate_G2 p (g, s) =
    (let h' = (mem s)(p := mem s (head_next_G2 b), head_next_G2 b := p,
                      sizeOfPool b := mem s (sizeOfPool b) - 1)
     in if mem s (sizeOfPool b) = 1 then
          (g\<lparr>m_freePools_G2 := m_freePools_G2 g - {b},
             m_freePool_G2 := pool_first (m_freePools_G2 g - {b})\<rparr>,
           s\<lparr>mem := h', live := live s - {b}\<rparr>)
        else if mem s (sizeOfPool b) = m_poolSize_G2 g then
          (g\<lparr>m_freePool_G2 := b, m_freePools_G2 := insert b (m_freePools_G2 g)\<rparr>,
           s\<lparr>mem := h'\<rparr>)
        else (g\<lparr>m_freePool_G2 := b\<rparr>, s\<lparr>mem := h'\<rparr>))"

proof (cases "mem s (head_next_G2 b) = 0")
  case True
  with assms occ_neq_head_G2 [of b] show ?thesis
    by (simp add: deallocate_G2_def Let_def pool_insert_def pool_remove_def sys_free_def
        word_minus1_eq0)

next
  case False
  with assms occ_neq_head_G2 [of b] show ?thesis
    by (simp add: deallocate_G2_def Let_def pool_insert_def pool_remove_def sys_free_def
        word_minus1_eq0)

qed

lemma deallocate_step_G2:
  assumes inv: "g2_inv (g, s)" and p: "p \<in> live_slots_G2 (g, s)"
    and res: "deallocate_G2 p (g, s) = (g', s')"
  obtains b where
    "b \<in> live s" "p \<in> allocated_G2 g (mem s) b" "p AND getPoolMask (lg s) = b"
    "g2_inv (g', s')"
    "live_slots_G2 (g', s') = live_slots_G2 (g, s) - {p}"
    "lg s' = lg s" "pages s' = pages s"
    "m_sizeOfObjects g' = m_sizeOfObjects g"
    "m_poolSize_G2 g' = m_poolSize_G2 g"
    "mem s (sizeOfPool b) = 1 \<Longrightarrow>
       live s' = live s - {b} \<and> allocated_G2 g (mem s) b = {p}"
    "mem s (sizeOfPool b) \<noteq> 1 \<Longrightarrow>
       live s' = live s \<and> m_freePool_G2 g' = b
       \<and> pool_free_list_G2 g' (mem s') b = p # pool_free_list_G2 g (mem s) b"
    "\<And>c. c \<in> live s \<Longrightarrow> c \<noteq> b \<Longrightarrow>
       pool_free_list_G2 g' (mem s') c = pool_free_list_G2 g (mem s) c"
    "mem s' (sizeOfPool b) = mem s (sizeOfPool b) - 1"
    "\<And>c. c \<in> live s \<Longrightarrow> c \<noteq> b \<Longrightarrow> mem s' (sizeOfPool c) = mem s (sizeOfPool c)"

proof -
  let ?n = "lg s" and ?h = "mem s"
  note D = pools_invD_G2 [OF inv [unfolded g2_inv_def]]
  from p obtain b where bl: "b \<in> live s" and pa: "p \<in> allocated_G2 g ?h b"
    by (rule live_slotsE_G2)
  have g: "g2_geom ?n g" by (rule D(1))
  have al: "page_aligned ?n b" and bz: "b \<noteq> 0" using D(5,6) bl by auto
  obtain fl where fl: "pool_abs_G2 g ?h b fl" using D(7) [OF bl] by auto
  have ps: "p \<in> set (slot_addrs_G2 g b)" and pf: "p \<notin> set fl"
    using pa by (simp_all add: pool_abs_allocated_G2 [OF fl])
  have pb: "p AND getPoolMask ?n = b" by (rule page_of_slot_G2 [OF g al ps])
  have fin: "finite (m_freePools_G2 g)" using D(2,3) by (rule rev_finite_subset)
  have notin_other: "p \<notin> allocated_G2 g ?h c" if "c \<in> live s" "c \<noteq> b" for c
  proof -
    have "p \<notin> set (slot_addrs_G2 g c)"
      using other_page_slot_G2 [OF g al D(6) [OF that(1)] _ ps] that(2) by auto
    then show ?thesis by (simp add: allocated_G2_def)
  qed
  have occ: "unat (?h (sizeOfPool b)) + length fl = unat (m_poolSize_G2 g)"
    and d: "distinct fl" and sub: "set fl \<subseteq> set (slot_addrs_G2 g b)"
    using fl by (auto simp: pool_abs_G2_def)
  define h' where "h' = ?h(p := ?h (head_next_G2 b), head_next_G2 b := p,
                          sizeOfPool b := ?h (sizeOfPool b) - 1)"
  have ph: "p \<noteq> head_next_G2 b" and po: "p \<noteq> sizeOfPool b"
    using header_not_slot_G2 [OF g al] ps by auto
  have pb': "p AND POOL_MASK ?n = b" using pb by (simp only: POOL_MASK_eq)
  note eq = deallocate_G2_eq [OF ph po pb', of g, folded h'_def, unfolded Let_def]
  have so: "same_outside ?n b ?h h'"
    unfolding h'_def by (rule same_outside_slot_upd_G2 [OF g al ps])
  have other: "pool_abs_G2 g h' c cl" if "c \<in> live s" "c \<noteq> b" "pool_abs_G2 g ?h c cl" for c cl
    using g D(6) [OF that(1)] that(2) so that(3) by (rule pool_abs_other_page_G2)
  have occ_b: "h' (sizeOfPool b) = ?h (sizeOfPool b) - 1"
    by (simp add: h'_def)
  have occ_other: "h' (sizeOfPool c) = ?h (sizeOfPool c)" if "c \<in> live s" "c \<noteq> b" for c
    using so page_of_header_G2(1) [OF g D(6) [OF that(1)]] that(2) by (simp add: same_outside_def)
  have fl_other0: "pool_free_list_G2 g h' c = pool_free_list_G2 g ?h c"
    if c: "c \<in> live s" "c \<noteq> b" for c
  proof -
    obtain cl where cl: "pool_abs_G2 g ?h c cl" using D(7) [OF c(1)] by auto
    from other [OF c cl] cl show ?thesis
      by (simp add: pool_abs_free_list_G2)
  qed
  show thesis
  proof (cases "?h (sizeOfPool b) = 1")
    case True
    have g': "g' = g\<lparr>m_freePools_G2 := m_freePools_G2 g - {b},
                        m_freePool_G2 := pool_first (m_freePools_G2 g - {b})\<rparr>"
      and s': "s' = s\<lparr>mem := h', live := live s - {b}\<rparr>"
      using res True by (simp_all add: eq)
    have fields: "m_sizeOfObjects g' = m_sizeOfObjects g"
      "m_poolSize_G2 g' = m_poolSize_G2 g"
      by (simp_all add: g')
    have s'_simps: "lg s' = lg s" "pages s' = pages s" "live s' = live s - {b}" "mem s' = h'"
      by (simp_all add: s')
    have abs_eq: "pool_abs_G2 g' = pool_abs_G2 g" by (rule pool_abs_cong_G2 [OF fields])
    have "Suc (length fl) = length (slot_addrs_G2 g b)"
      using occ True by simp
    with distinct_slot_addrs_G2 [OF g al] d sub have one: "set (slot_addrs_G2 g b) - set fl = {p}"
      using ps pf by (intro singleton_rest) simp_all
    then have ab: "allocated_G2 g ?h b = {p}" by (simp add: pool_abs_allocated_G2 [OF fl])
    have inv': "g2_inv (g', s')"
      unfolding g2_inv_def
    proof (rule pools_invI_G2)
      show "g2_geom (lg s') g'" using g by (simp add: s'_simps g2_geom_cong [OF fields])
      show "finite (live s')" using D(2) by (simp add: s'_simps)
      show "m_freePools_G2 g' \<subseteq> live s'" using D(3) by (auto simp: g' s'_simps)
      have "finite (m_freePools_G2 g - {b})" using fin by simp
      then have "if m_freePools_G2 g - {b} = {} then pool_first (m_freePools_G2 g - {b}) = 0
                 else pool_first (m_freePools_G2 g - {b}) \<in> m_freePools_G2 g - {b}"
        by (rule pool_first_spec)
      then show "if m_freePools_G2 g' = {} then m_freePool_G2 g' = 0
                 else m_freePool_G2 g' \<in> m_freePools_G2 g'"
        by (auto simp: g' split: if_splits)
      show "pool \<noteq> 0 \<and> page_aligned (lg s') pool" if "pool \<in> live s'" for pool
        using that D(5,6) by (simp add: s'_simps)
      show "\<exists>fl. pool_abs_G2 g' (mem s') pool fl" if pl: "pool \<in> live s'" for pool
      proof -
        have pl': "pool \<in> live s" "pool \<noteq> b" using pl by (simp_all add: s'_simps)
        obtain cl where "pool_abs_G2 g ?h pool cl" using D(7) [OF pl'(1)] by auto
        then have "pool_abs_G2 g h' pool cl" using other pl' by simp
        then show ?thesis by (auto simp: abs_eq s'_simps)
      qed
      show "mem s' (sizeOfPool pool) \<noteq> 0" if "pool \<in> live s'" "pool \<notin> {}" for pool
        using that D(8) [of pool] occ_other [of pool] by (simp add: s'_simps)
      show "pool \<in> m_freePools_G2 g' \<longleftrightarrow> mem s' (sizeOfPool pool) \<noteq> m_poolSize_G2 g'"
        if "pool \<in> live s'" for pool
        using that D(9) [of pool] occ_other [of pool] by (auto simp: s'_simps g')
    qed
    have fl_other: "pool_free_list_G2 g' (mem s') c = pool_free_list_G2 g ?h c"
      if c: "c \<in> live s" "c \<noteq> b" for c
      using fl_other0 [OF c] by (simp add: pool_free_list_cong_G2 [OF fields(2)] s'_simps)
    have alloc_other: "allocated_G2 g' h' c = allocated_G2 g ?h c" if "c \<in> live s" "c \<noteq> b" for c
      using fl_other [OF that]
      by (simp add: allocated_G2_def slot_addrs_cong_G2 [OF fields] s'_simps)
    have ls: "live_slots_G2 (g', s') = live_slots_G2 (g, s) - {p}"
    proof -
      have "(\<Union>c\<in>live s. allocated_G2 g ?h c) = {p} \<union> (\<Union>c\<in>live s - {b}. allocated_G2 g ?h c)"
        using bl ab by auto
      moreover have "p \<notin> (\<Union>c\<in>live s - {b}. allocated_G2 g ?h c)"
        using notin_other by auto
      moreover have "(\<Union>c\<in>live s - {b}. allocated_G2 g' h' c)
                       = (\<Union>c\<in>live s - {b}. allocated_G2 g ?h c)"
        using alloc_other by simp
      ultimately show ?thesis
        by (simp add: live_slots_G2_def s'_simps)
    qed
    show ?thesis
      using bl pa pb inv' ls s'_simps fields ab True fl_other occ_b occ_other
      by (intro that [of b]) simp_all
  next
    case False
    have g': "g' = (if ?h (sizeOfPool b) = m_poolSize_G2 g
                      then g\<lparr>m_freePool_G2 := b, m_freePools_G2 := insert b (m_freePools_G2 g)\<rparr>
                      else g\<lparr>m_freePool_G2 := b\<rparr>)"
      and s': "s' = s\<lparr>mem := h'\<rparr>"
      using res False by (auto simp: eq split: if_splits)
    have fields: "m_sizeOfObjects g' = m_sizeOfObjects g"
      "m_poolSize_G2 g' = m_poolSize_G2 g"
      by (simp_all add: g')
    have s'_simps: "lg s' = lg s" "pages s' = pages s" "live s' = live s" "mem s' = h'"
      by (simp_all add: s')
    have abs_eq: "pool_abs_G2 g' = pool_abs_G2 g" by (rule pool_abs_cong_G2 [OF fields])
    have push: "pool_abs_G2 g h' b (p # fl)"
      unfolding h'_def by (rule pool_abs_push_G2 [OF g al fl ps pf bz])
    have pos: "0 < unat (?h (sizeOfPool b))"
      using D(8) [OF bl] by (simp add: unat_gt_0)
    have un1: "unat (?h (sizeOfPool b)) \<noteq> 1"
      using False by (metis unat_1 word_unat_eq_iff)
    have um: "unat (h' (sizeOfPool b)) = unat (?h (sizeOfPool b)) - 1"
      unfolding occ_b using pos by (rule unat_minus_one_pos)
    have occ_nz: "h' (sizeOfPool b) \<noteq> 0"
      using um pos un1 by (auto simp: unat_eq_0 simp del: unsigned_eq_0_iff)
    have occ_nfull: "h' (sizeOfPool b) \<noteq> m_poolSize_G2 g"
    proof
      assume "h' (sizeOfPool b) = m_poolSize_G2 g"
      then have "unat (?h (sizeOfPool b)) - 1 = unat (m_poolSize_G2 g)" using um by simp
      with occ pos show False by simp
    qed
    have b_in: "b \<in> m_freePools_G2 g'"
      using D(9) [OF bl] by (simp add: g')
    have fp': "m_freePools_G2 g' = insert b (m_freePools_G2 g)"
      using D(9) [OF bl] by (auto simp: g')
    have inv': "g2_inv (g', s')"
      unfolding g2_inv_def
    proof (rule pools_invI_G2)
      show "g2_geom (lg s') g'" using g by (simp add: s'_simps g2_geom_cong [OF fields])
      show "finite (live s')" using D(2) by (simp add: s'_simps)
      show "m_freePools_G2 g' \<subseteq> live s'" using D(3) bl by (auto simp: fp' s'_simps)
      show "if m_freePools_G2 g' = {} then m_freePool_G2 g' = 0
            else m_freePool_G2 g' \<in> m_freePools_G2 g'"
        using b_in by (auto simp: g')
      show "pool \<noteq> 0 \<and> page_aligned (lg s') pool" if "pool \<in> live s'" for pool
        using that D(5,6) by (simp add: s'_simps)
      show "\<exists>fl. pool_abs_G2 g' (mem s') pool fl" if pl: "pool \<in> live s'" for pool
      proof (cases "pool = b")
        case True
        then show ?thesis using push by (auto simp: abs_eq s'_simps)
      next
        case False
        have pl': "pool \<in> live s" using pl by (simp add: s'_simps)
        obtain cl where "pool_abs_G2 g ?h pool cl" using D(7) [OF pl'] by auto
        then have "pool_abs_G2 g h' pool cl" using other pl' False by simp
        then show ?thesis by (auto simp: abs_eq s'_simps)
      qed
      show "mem s' (sizeOfPool pool) \<noteq> 0" if "pool \<in> live s'" "pool \<notin> {}" for pool
      proof (cases "pool = b")
        case True
        then show ?thesis using occ_nz by (simp add: s'_simps)
      next
        case False
        then show ?thesis using that D(8) [of pool] occ_other [of pool] by (simp add: s'_simps)
      qed
      show "pool \<in> m_freePools_G2 g' \<longleftrightarrow> mem s' (sizeOfPool pool) \<noteq> m_poolSize_G2 g'"
        if "pool \<in> live s'" for pool
      proof (cases "pool = b")
        case True
        then show ?thesis using b_in occ_nfull by (simp add: s'_simps fields)
      next
        case False
        then show ?thesis
          using that D(9) [of pool] occ_other [of pool] by (simp add: fp' s'_simps fields)
      qed
    qed
    have fl_b: "pool_free_list_G2 g ?h b = fl" by (rule pool_abs_free_list_G2 [OF fl])
    have fl_b': "pool_free_list_G2 g' h' b = p # fl"
      using pool_abs_free_list_G2 [OF push] by (simp add: pool_free_list_cong_G2 [OF fields(2)])
    have fl_other: "pool_free_list_G2 g' h' c = pool_free_list_G2 g ?h c"
      if c: "c \<in> live s" "c \<noteq> b" for c
      using fl_other0 [OF c] by (simp add: pool_free_list_cong_G2 [OF fields(2)])
    have alloc_b: "allocated_G2 g' h' b = allocated_G2 g ?h b - {p}"
      by (auto simp: allocated_G2_def slot_addrs_cong_G2 [OF fields] fl_b fl_b')
    have alloc_other: "allocated_G2 g' h' c = allocated_G2 g ?h c" if "c \<in> live s" "c \<noteq> b" for c
      using fl_other [OF that] by (simp add: allocated_G2_def slot_addrs_cong_G2 [OF fields])
    have ls: "live_slots_G2 (g', s') = live_slots_G2 (g, s) - {p}"
    proof -
      have "(\<Union>c\<in>live s. allocated_G2 g' h' c)
              = allocated_G2 g' h' b \<union> (\<Union>c\<in>live s - {b}. allocated_G2 g' h' c)"
        using bl by auto
      also have "\<dots> = (allocated_G2 g ?h b - {p}) \<union> (\<Union>c\<in>live s - {b}. allocated_G2 g ?h c)"
        using alloc_other by (simp add: alloc_b)
      also have "\<dots> = (\<Union>c\<in>live s. allocated_G2 g ?h c) - {p}"
        using bl notin_other by auto
      finally show ?thesis by (simp add: live_slots_G2_def s'_simps)
    qed
    have mf: "m_freePool_G2 g' = b" by (simp add: g')
    show ?thesis
      using bl pa pb inv' ls s'_simps fields False mf fl_b' fl_b fl_other occ_b occ_other
      by (intro that [of b]) simp_all
  qed

qed

lemma g2_inv_fresh:
  assumes "g2_geom (lg s) g" "m_freePools_G2 g = {}" "m_freePool_G2 g = 0" "live s = {}"
  shows "g2_inv (g, s)"
  using assms by (simp add: g2_inv_def pools_inv_G2_def)


lemma live_slot_page_G2:
  assumes "g2_inv (g, s)" "q \<in> live_slots_G2 (g, s)"
  shows "q AND getPoolMask (lg s) \<in> live s"

proof -
  note D = pools_invD_G2 [OF assms(1) [unfolded g2_inv_def]]
  from assms(2) obtain b where b: "b \<in> live s" "q \<in> allocated_G2 g (mem s) b"
    by (rule live_slotsE_G2)
  then have "q \<in> set (slot_addrs_G2 g b)" by (simp add: allocated_G2_def)
  with D(1) D(6) [OF b(1)] have "q AND getPoolMask (lg s) = b" by (rule page_of_slot_G2)
  with b(1) show ?thesis by simp

qed

lemma allocate_G2_live:
  assumes "allocate_G2 (g, s) = Inr (p, g', s')"
  shows "live s \<subseteq> live s'"
  using assms
  by (auto simp: allocate_G2_def nextFree_G2_def aligned_alloc_def Let_def
      split: if_splits list.splits sum.splits prod.splits)

section \<open>Release of a page by \<open>GlobalLinkedPool2\<close>\<close>

text \<open>
  C6.  In a state that satisfies the invariant of the pool set, whatever the call
  (\<open>allocate()\<close>, or \<open>deallocate(p)\<close> of an allocated slot), a page held before the
  call is given back to the system by the call if and only if its count of occupied
  slots, \<open>sizeOfPool\<close>, which was not 0 before, is 0 after; this happens exactly for
  the page of \<open>p\<close> in a call \<open>deallocate(p)\<close> that finds the count at 1.  The
  invariant holds again after the call, every slot allocated after the call lies in a
  page that is still held, and every slot allocated before the call, other than the one
  deallocated, is still allocated.
\<close>

theorem page_released_iff_count_zero:
  assumes inv: "g2_inv (g, s)" and leg: "legal_G2 r (g, s)"
    and st: "step_G2 r (g, s) = Inr (g', s')"
  shows "g2_inv (g', s')
    \<and> (\<forall>c\<in>live s. mem s (sizeOfPool c) \<noteq> 0)
    \<and> (\<forall>c\<in>live s. c \<notin> live s' \<longleftrightarrow> mem s' (sizeOfPool c) = 0)
    \<and> (\<forall>c\<in>live s. c \<notin> live s' \<longleftrightarrow>
          (\<exists>p. r = Deallocate p \<and> c = p AND POOL_MASK (lg s) \<and> mem s (sizeOfPool c) = 1))
    \<and> (r \<noteq> Allocate \<longrightarrow> live s' \<subseteq> live s)
    \<and> (\<forall>q\<in>live_slots_G2 (g', s'). q AND POOL_MASK (lg s') \<in> live s')
    \<and> (\<forall>q\<in>live_slots_G2 (g, s). r \<noteq> Deallocate q \<longrightarrow> q \<in> live_slots_G2 (g', s'))"

proof -
  note D = pools_invD_G2 [OF inv [unfolded g2_inv_def]]
  have nz: "\<forall>c\<in>live s. mem s (sizeOfPool c) \<noteq> 0" using D(8) by simp
  have pg: "\<forall>q\<in>live_slots_G2 (g', s'). q AND POOL_MASK (lg s') \<in> live s'"
    if "g2_inv (g', s')"
    using live_slot_page_G2 [OF that] by (simp add: POOL_MASK_eq)
  show ?thesis
  proof (cases r)
    case Allocate
    then obtain p where al: "allocate_G2 (g, s) = Inr (p, g', s')"
      using st by (auto simp: step_G2_def split: sum.splits)
    have np: "next_page_ok s" using leg Allocate by (simp add: legal_G2_def)
    have A: "g2_inv (g', s')" "live_slots_G2 (g', s') = insert p (live_slots_G2 (g, s))"
      using allocate_inv0_G2 [of "(g, s)" p "(g', s')"] inv np al by simp_all
    have sub: "live s \<subseteq> live s'" by (rule allocate_G2_live [OF al])
    note D' = pools_invD_G2 [OF A(1) [unfolded g2_inv_def]]
    have z: "\<forall>c\<in>live s. c \<in> live s' \<and> mem s' (sizeOfPool c) \<noteq> 0"
      using sub D'(8) by auto
    show ?thesis
      using A nz z pg [OF A(1)] Allocate by simp
  next
    case (Deallocate p)
    have pl: "p \<in> live_slots_G2 (g, s)" using leg Deallocate by (simp add: legal_G2_def)
    have de: "deallocate_G2 p (g, s) = (g', s')" using st Deallocate by (simp add: step_G2_def)
    obtain b where b: "b \<in> live s" "p AND getPoolMask (lg s) = b" "g2_inv (g', s')"
      "live_slots_G2 (g', s') = live_slots_G2 (g, s) - {p}"
      "mem s (sizeOfPool b) = 1 \<Longrightarrow> live s' = live s - {b}"
      "mem s (sizeOfPool b) \<noteq> 1 \<Longrightarrow> live s' = live s"
      "mem s' (sizeOfPool b) = mem s (sizeOfPool b) - 1"
      "\<And>c. c \<in> live s \<Longrightarrow> c \<noteq> b \<Longrightarrow> mem s' (sizeOfPool c) = mem s (sizeOfPool c)"
      by (rule deallocate_step_G2 [OF inv pl de]) blast
    have pm: "p AND POOL_MASK (lg s) = b" using b(2) by (simp add: POOL_MASK_eq)
    have c3: "c \<notin> live s' \<longleftrightarrow> mem s' (sizeOfPool c) = 0" if c: "c \<in> live s" for c
    proof (cases "c = b")
      case True
      show ?thesis
      proof (cases "mem s (sizeOfPool b) = 1")
        case True
        with b(5,7) \<open>c = b\<close> show ?thesis by simp
      next
        case False
        with b(6,7) \<open>c = b\<close> c show ?thesis by (simp add: word_minus1_eq0)
      qed
    next
      case False
      have "c \<in> live s'" using b(5,6) c False by (cases "mem s (sizeOfPool b) = 1") auto
      moreover have "mem s' (sizeOfPool c) \<noteq> 0" using b(8) [OF c False] nz c by simp
      ultimately show ?thesis by simp
    qed
    have c4: "c \<notin> live s' \<longleftrightarrow> (c = b \<and> mem s (sizeOfPool c) = 1)" if c: "c \<in> live s" for c
      using b(5,6) c by (cases "mem s (sizeOfPool b) = 1") auto
    have c5: "live s' \<subseteq> live s"
      using b(5,6) by (cases "mem s (sizeOfPool b) = 1") auto
    have c7: "\<forall>q\<in>live_slots_G2 (g, s). q \<noteq> p \<longrightarrow> q \<in> live_slots_G2 (g', s')"
      by (simp add: b(4))
    show ?thesis
      using b(3) nz c3 c4 c5 pg [OF b(3)] c7 by (simp add: Deallocate pm)
  qed

qed

text \<open>
  An instance: a pool set for objects of 1000 bytes on pages of 4096 bytes allocates
  its first slot, \<open>0x10020\<close> in the page \<open>0x10000\<close>; deallocating it takes the count
  of that page from 1 to 0 and the page is given back.
\<close>

lemma ex_g2_alloc:
  "(case allocate_G2 (ex_g2, fresh_sys 12 [0x10000]) of
      Inr (p, g, s) \<Rightarrow> p = 0x10020 \<and> live s = {0x10000} \<and> lg s = 12
        \<and> mem s (sizeOfPool 0x10000) = 1
    | Inl f \<Rightarrow> False)"
  by code_simp

lemma ex_g2_geom: "g2_geom 12 ex_g2"
  by code_simp

theorem page_released_iff_count_zero_witness:
  "\<exists>g s g' s'. allocate_G2 (ex_g2, fresh_sys 12 [0x10000]) = Inr (0x10020, g, s)
     \<and> g2_inv (g, s) \<and> legal_G2 (Deallocate 0x10020) (g, s)
     \<and> step_G2 (Deallocate 0x10020) (g, s) = Inr (g', s')
     \<and> live s = {0x10000} \<and> mem s (sizeOfPool 0x10000) = 1
     \<and> mem s' (sizeOfPool 0x10000) = 0 \<and> live s' = {}"

proof -
  obtain g s where a: "allocate_G2 (ex_g2, fresh_sys 12 [0x10000]) = Inr (0x10020, g, s)"
    and l: "live s = {0x10000}" "lg s = 12" and o: "mem s (sizeOfPool 0x10000) = 1"
    using ex_g2_alloc by (auto split: sum.splits)
  have inv0: "g2_inv (ex_g2, fresh_sys 12 [0x10000])"
    using ex_g2_geom by (intro g2_inv_fresh) (simp_all add: fresh_sys_def ex_g2_def GlobalLinkedPool2_new_def Let_def)
  have np: "next_page_ok (snd (ex_g2, fresh_sys 12 [0x10000]))"
    by (simp add: next_page_ok_def fresh_sys_def page_aligned_def getPageSize_def)
  have A: "g2_inv (g, s)" "live_slots_G2 (g, s) = insert 0x10020 (live_slots_G2 (ex_g2, fresh_sys 12 [0x10000]))"
    using allocate_inv0_G2 [OF inv0 np a] by simp_all
  have leg: "legal_G2 (Deallocate 0x10020) (g, s)" by (simp add: legal_G2_def A(2))
  obtain g' s' where d: "step_G2 (Deallocate 0x10020) (g, s) = Inr (g', s')"
    by (cases "deallocate_G2 0x10020 (g, s)") (simp add: step_G2_def)
  have pm: "(0x10020 :: addr) AND POOL_MASK 12 = 0x10000"
    by (simp add: POOL_MASK_eq getPoolMask_def getPageSize_def)
  from page_released_iff_count_zero [OF A(1) leg d] l o pm
  have "mem s' (sizeOfPool 0x10000) = 0" "live s' = {}" by auto
  with a A(1) leg d l o show ?thesis by blast

qed

section \<open>The capacity of a page\<close>

lemma unat_getPageSize_minus:
  assumes "5 \<le> n" "n < 64"
  shows "unat (getPageSize n - sizeof_PoolHeaderG2) = 2 ^ n - 32"

proof -
  have "unat ((2::size_t) ^ n) = unat (word_of_nat (2 ^ n) :: size_t)" by simp
  also have "\<dots> = take_bit 64 ((2::nat) ^ n)" by (simp only: unsigned_of_nat) simp
  also have "\<dots> = 2 ^ n"
  proof (rule take_bit_nat_eq_self)
    show "(2::nat) ^ n < 2 ^ 64" by (rule power_strict_increasing [OF assms(2)]) simp
  qed
  finally have p: "unat ((2::size_t) ^ n) = 2 ^ n" .
  have "(2::nat) ^ 5 \<le> 2 ^ n" using assms(1) by (rule power_increasing) simp
  then have "(32::nat) \<le> 2 ^ n" by simp
  then have "(32::size_t) \<le> 2 ^ n" using p by (simp add: word_le_nat_alt)
  then have "unat ((2::size_t) ^ n - 32) = unat ((2::size_t) ^ n) - unat (32::size_t)"
    by (rule unat_sub)
  then show ?thesis by (simp add: getPageSize_def sizeof_PoolHeaderG2_def p)

qed

text \<open>
  C2.  For pages of \<open>2 ^ n\<close> bytes, at least the 32 bytes of the header, and every
  object size \<open>t\<close>, the pool set made by \<open>GlobalLinkedPool2(t)\<close> has slots of
  \<open>max(8, t)\<close> bytes and the capacity
  \<open>floor((page_size - sizeof(PoolHeaderG2) - 0) / slot_size)\<close>: this class puts its
  first slot right after the header, with no padding.  Each of the slots, laid out from
  offset 32 at a stride of the slot size, ends inside the page, and one more slot would
  not.
\<close>

theorem capacity_G2:
  assumes n: "5 \<le> n" "n < 64" and g: "g = GlobalLinkedPool2_new n t"
  shows "unat (m_sizeOfObjects g) = max 8 (unat t)
    \<and> unat (m_poolSize_G2 g) = (2 ^ n - unat sizeof_PoolHeaderG2 - 0) div unat (m_sizeOfObjects g)
    \<and> (\<forall>k<unat (m_poolSize_G2 g). slot_off_G2 g k + unat (m_sizeOfObjects g) \<le> 2 ^ n)
    \<and> 2 ^ n < slot_off_G2 g (unat (m_poolSize_G2 g)) + unat (m_sizeOfObjects g)"

proof -
  define s where "s = unat (m_sizeOfObjects g)"
  define c where "c = unat (m_poolSize_G2 g)"
  have s: "s = max 8 (unat t)"
    by (auto simp: s_def g GlobalLinkedPool2_new_def sizeof_NodeG2_def Let_def word_less_nat_alt)
  then have s0: "0 < s" by simp
  have "m_poolSize_G2 g = (getPageSize n - sizeof_PoolHeaderG2) div m_sizeOfObjects g"
    by (simp add: g GlobalLinkedPool2_new_def Let_def)
  then have c: "c = (2 ^ n - 32) div s"
    by (simp add: c_def s_def unat_div unat_getPageSize_minus [OF n])
  have "(2::nat) ^ 5 \<le> 2 ^ n" using n(1) by (rule power_increasing) simp
  then have big: "(32::nat) \<le> 2 ^ n" by simp
  have le: "c * s \<le> 2 ^ n - 32" unfolding c by (rule div_times_less_eq_dividend)
  have gt: "2 ^ n - 32 < s + c * s"
    unfolding c using s0 by (rule dividend_less_div_times)
  have in_page: "32 + k * s + s \<le> 2 ^ n" if "k < c" for k
  proof -
    have "Suc k \<le> c" using that by simp
    then have "Suc k * s \<le> c * s" by (rule mult_le_mono1)
    with le big show ?thesis by simp
  qed
  have "2 ^ n < 32 + c * s + s" using gt big by linarith
  with s c in_page show ?thesis
    by (simp add: slot_off_G2_def sizeof_PoolHeaderG2_def flip: s_def c_def)

qed

text \<open>An instance: 169 slots of 24 bytes in a page of 4096 bytes.\<close>

theorem capacity_G2_witness:
  "(5::nat) \<le> 12 \<and> (12::nat) < 64
   \<and> unat (m_sizeOfObjects (GlobalLinkedPool2_new 12 24)) = 24
   \<and> unat (m_poolSize_G2 (GlobalLinkedPool2_new 12 24)) = 169
   \<and> slot_off_G2 (GlobalLinkedPool2_new 12 24) 168 + 24 \<le> 4096
   \<and> 4096 < slot_off_G2 (GlobalLinkedPool2_new 12 24) 169 + 24"

proof -
  have u: "unat (24 :: size_t) = 24" "unat sizeof_PoolHeaderG2 = 32"
    by (simp_all add: sizeof_PoolHeaderG2_def)
  from capacity_G2 [of 12 "GlobalLinkedPool2_new 12 24" 24]
  have c: "unat (m_sizeOfObjects (GlobalLinkedPool2_new 12 24)) = 24"
    "unat (m_poolSize_G2 (GlobalLinkedPool2_new 12 24)) = 169"
    by (simp_all add: u)
  from capacity_G2 [of 12 "GlobalLinkedPool2_new 12 24" 24] c
  have "\<forall>k<169. slot_off_G2 (GlobalLinkedPool2_new 12 24) k + 24 \<le> 4096"
    "4096 < slot_off_G2 (GlobalLinkedPool2_new 12 24) 169 + 24"
    by simp_all
  with c show ?thesis by simp

qed

subsection \<open>The capacity of \<open>LinkedPool<T>\<close>\<close>

lemma div_pad_eq:
  fixes A P S :: nat
  assumes "A dvd P" "A dvd S" "0 < S" "16 < A" "A \<le> P"
  shows "(P - 16) div S = (P - 16 - (A - 16)) div S"
proof -
  obtain M where M: "P = A * M" using assms(1) by (auto simp: dvd_def)
  obtain S' where S': "S = A * S'" using assms(2) by (auto simp: dvd_def)
  have A0: "0 < A" using assms(4) by simp
  have M1: "1 \<le> M" using assms(4,5) M by (cases M) auto
  define r where "r = A - 16"
  have r: "r < A" "r + 16 = A" using assms(4) by (simp_all add: r_def)
  have e: "P - 16 = r + (M - 1) * A"
  proof -
    have "A * M = A * (M - 1) + A" using M1 by (cases M) (simp_all add: algebra_simps)
    then show ?thesis using r(2) by (simp add: M algebra_simps)
  qed
  have "(r + (M - 1) * A) div A = (M - 1) + r div A"
    using A0 by (intro div_mult_self1) simp
  then have "(P - 16) div A = M - 1"
    unfolding e using r(1) by simp
  then have l: "(P - 16) div S = (M - 1) div S'"
    by (simp add: S' div_mult2_eq)
  have "P - 16 - r = A * (M - 1)"
    unfolding e by (simp add: algebra_simps)
  then have "(P - 16 - (A - 16)) div S = (M - 1) div S'"
    using A0 by (simp add: S' r_def)
  with l show ?thesis by simp
qed

lemma unat_2p64:
  assumes "a < 64"
  shows "unat ((2::size_t) ^ a) = 2 ^ a"
proof -
  have "unat ((2::size_t) ^ a) = unat (word_of_nat (2 ^ a) :: size_t)" by simp
  also have "\<dots> = take_bit 64 ((2::nat) ^ a)" by (simp only: unsigned_of_nat) simp
  also have "\<dots> = 2 ^ a"
  proof (rule take_bit_nat_eq_self)
    show "(2::nat) ^ a < 2 ^ 64" by (rule power_strict_increasing [OF assms]) simp
  qed
  finally show ?thesis .
qed

lemma unat_round_to:
  fixes m al :: size_t
  assumes "0 < unat al" "unat m + unat al < 2 ^ 64"
  shows "unat (if mod_sz m al \<noteq> 0 then m + (al - mod_sz m al) else m)
           = (if unat m mod unat al \<noteq> 0 then unat m + (unat al - unat m mod unat al) else unat m)"
proof -
  have d: "unat (mod_sz m al) = unat m mod unat al"
    by (simp add: mod_sz_def unat_mod)
  have lt: "unat m mod unat al < unat al" using assms(1) by simp
  then have le: "mod_sz m al \<le> al" by (simp add: word_le_nat_alt d)
  have s: "unat (al - mod_sz m al) = unat al - unat m mod unat al"
    using le by (simp add: unat_sub d)
  have "unat m + unat (al - mod_sz m al) < 2 ^ 64" using assms(2) s by simp
  then have "unat (m + (al - mod_sz m al)) = unat m + unat (al - mod_sz m al)"
    by (simp add: unat_add_lem [THEN iffD1])
  with s d show ?thesis by (auto simp: unat_eq_0)
qed

lemma round_to_dvd:
  fixes m A :: nat
  assumes "0 < A"
  shows "A dvd (if m mod A \<noteq> 0 then m + (A - m mod A) else m)"
proof (cases "m mod A = 0")
  case True
  then show ?thesis by (simp add: mod_eq_0_iff_dvd)
next
  case False
  define q r where "q = m div A" and "r = m mod A"
  have m: "m = q * A + r" by (simp add: q_def r_def)
  have "r < A" using assms by (simp add: r_def)
  then have "m + (A - r) = (q + 1) * A" unfolding m by (simp add: algebra_simps)
  then have "A dvd m + (A - r)" by simp
  then show ?thesis using False by (simp add: r_def)
qed

text \<open>
  The constructor of \<open>LinkedPool<T>\<close> divides the page less the header by the slot
  size and does not subtract the padding it has put after the header.  For an
  alignment that is a power of two not above the page size the quotient is the same:
  the slot size is a multiple of the alignment, and the padding is less than the
  remainder of the division.  So here too the capacity is
  \<open>floor((page_size - sizeof(PoolHeader) - padding) / slot_size)\<close>, and the slots
  end inside the page.
\<close>

lemma LinkedPool_new_capacity:
  assumes a: "a \<le> n" and n: "n < 64" and n4: "4 \<le> n"
    and al: "alignof_T = 2 ^ a"
    and sz: "unat sizeof_T + 2 ^ a + 8 < 2 ^ 64"
    and lp: "lp = LinkedPool_new n sizeof_T alignof_T"
  shows "unat (m_headerPadding lp) = (if a \<le> 4 then 0 else 2 ^ a - 16)
    \<and> 2 ^ a dvd unat (m_slotSize lp)
    \<and> max 8 (unat sizeof_T) \<le> unat (m_slotSize lp)
    \<and> unat (m_poolSize lp)
        = (2 ^ n - unat sizeof_PoolHeader - unat (m_headerPadding lp)) div unat (m_slotSize lp)
    \<and> unat sizeof_PoolHeader + unat (m_headerPadding lp)
        + unat (m_poolSize lp) * unat (m_slotSize lp) \<le> 2 ^ n"
proof -
  define A :: nat where "A = 2 ^ a"
  define m :: size_t where "m = (if sizeof_T < sizeof_Node then sizeof_Node else sizeof_T)"
  define S where "S = unat (m_slotSize lp)"
  define pad where "pad = unat (m_headerPadding lp)"
  have a64: "a < 64" using a n by simp
  have uA: "unat alignof_T = A" unfolding al A_def by (rule unat_2p64 [OF a64])
  have A0: "0 < A" by (simp add: A_def)
  have um: "unat m = max 8 (unat sizeof_T)"
    by (auto simp: m_def sizeof_Node_def word_less_nat_alt)
  have fit: "unat m + unat alignof_T < 2 ^ 64"
    using sz unfolding um uA A_def by (simp add: max_def)
  have slot: "m_slotSize lp = (if mod_sz m alignof_T \<noteq> 0 then m + (alignof_T - mod_sz m alignof_T) else m)"
    by (simp add: lp LinkedPool_new_def Let_def m_def)
  have S: "S = (if unat m mod A \<noteq> 0 then unat m + (A - unat m mod A) else unat m)"
    unfolding S_def slot using unat_round_to [of alignof_T m] A0 fit by (simp only: uA)
  have dvdS: "A dvd S" unfolding S using A0 by (rule round_to_dvd)
  have geS: "unat m \<le> S" unfolding S by simp
  then have S0: "0 < S" using um by simp
  have u16: "unat (mod_sz sizeof_PoolHeader alignof_T) = 16 mod A"
    by (simp add: mod_sz_def unat_mod uA sizeof_PoolHeader_def)
  have m16: "(16::nat) mod A = (if a \<le> 4 then 0 else 16)"
  proof (cases "a \<le> 4")
    case True
    then have "(2::nat) ^ a dvd 2 ^ 4" by (rule le_imp_power_dvd)
    then show ?thesis using True by (simp add: A_def mod_eq_0_iff_dvd)
  next
    case False
    then have "5 \<le> a" by simp
    then have "(2::nat) ^ 5 \<le> 2 ^ a" by (rule power_increasing) simp
    then show ?thesis using False by (simp add: A_def)
  qed
  have padw: "m_headerPadding lp
      = (if mod_sz sizeof_PoolHeader alignof_T \<noteq> 0
         then alignof_T - mod_sz sizeof_PoolHeader alignof_T else 0)"
    by (simp add: lp LinkedPool_new_def Let_def)
  have lt16: "16 mod A < A" using A0 by simp
  then have "mod_sz sizeof_PoolHeader alignof_T \<le> alignof_T"
    by (simp add: word_le_nat_alt u16 uA)
  then have "unat (alignof_T - mod_sz sizeof_PoolHeader alignof_T) = A - 16 mod A"
    by (simp add: unat_sub u16 uA)
  then have pad: "pad = (if a \<le> 4 then 0 else A - 16)"
    unfolding pad_def padw using u16 m16 by (auto simp: unat_eq_0)
  have "(2::nat) ^ 4 \<le> 2 ^ n" using n4 by (rule power_increasing) simp
  then have big: "(16::nat) \<le> 2 ^ n" by simp
  have p: "unat ((2::size_t) ^ n) = 2 ^ n" by (rule unat_2p64 [OF n])
  have "(16::size_t) \<le> 2 ^ n" using big p by (simp add: word_le_nat_alt)
  then have "unat ((2::size_t) ^ n - 16) = unat ((2::size_t) ^ n) - unat (16::size_t)"
    by (rule unat_sub)
  then have upg: "unat (getPageSize n - sizeof_PoolHeader) = 2 ^ n - 16"
    by (simp add: getPageSize_def sizeof_PoolHeader_def p)
  have "m_poolSize lp = (getPageSize n - sizeof_PoolHeader) div m_slotSize lp"
    by (simp add: lp LinkedPool_new_def Let_def)
  then have cap: "unat (m_poolSize lp) = (2 ^ n - 16) div S"
    by (simp add: unat_div upg S_def)
  have AP: "A dvd 2 ^ n" "A \<le> 2 ^ n"
    unfolding A_def using a by (simp_all add: le_imp_power_dvd)
  have eq: "(2 ^ n - 16) div S = (2 ^ n - 16 - pad) div S"
  proof (cases "a \<le> 4")
    case True
    then show ?thesis by (simp add: pad)
  next
    case False
    then have "5 \<le> a" by simp
    then have "(2::nat) ^ 5 \<le> 2 ^ a" by (rule power_increasing) simp
    then have "16 < A" by (simp add: A_def)
    from div_pad_eq [OF AP(1) dvdS S0 this AP(2)] False show ?thesis by (simp add: pad)
  qed
  have "(2 ^ n - 16 - pad) div S * S \<le> 2 ^ n - 16 - pad"
    by (rule div_times_less_eq_dividend)
  moreover have "pad \<le> 2 ^ n - 16" using AP(2) big by (auto simp: pad)
  ultimately have room: "16 + pad + (2 ^ n - 16) div S * S \<le> 2 ^ n"
    using big unfolding eq by linarith
  show ?thesis
    using pad dvdS geS cap eq room
    by (simp add: sizeof_PoolHeader_def um flip: S_def pad_def A_def)
qed

section \<open>A request of size 0\<close>

text \<open>
  C9.  In the first version of \<open>custom_new_delete2.h\<close> a request of size 0 stays 0
  after the rounding, and \<open>getAllocatorsIndex\<close>, which has no test for 0 there,
  gives \<open>(0 >> 3) - 1\<close>, the largest \<open>size_t\<close>: the access to the 16 entries of
  \<open>__allocators\<close> is out of range and no pointer is returned.  The
  \<open>getAllocatorsIndex\<close> of the second version gives index 0 for size 0.
\<close>

theorem size_zero_index_G2:
  assumes "length (allocators d) = unat (drop_bit logOfVoid threshold)"
  shows "unat (getAllocatorsIndex_G2 0) = 2 ^ 64 - 1
    \<and> \<not> unat (getAllocatorsIndex_G2 0) < length (allocators d)
    \<and> custom_new_no_throw_G2 0 d = Inl OutOfRange
    \<and> unat (getAllocatorsIndex 0) = 0"

proof -
  have i: "unat (getAllocatorsIndex_G2 0) = 2 ^ 64 - 1"
    by (simp add: getAllocatorsIndex_G2_def unsigned_minus_1_eq_mask mask_eq_exp_minus_1)
  have l: "length (allocators d) = 16"
    using assms by (simp add: logOfVoid_def threshold_def drop_bit_eq_div)
  have n: "\<not> unat (getAllocatorsIndex_G2 0) < length (allocators d)"
    unfolding i l by simp
  have "custom_new_no_throw_G2 0 d = Inl OutOfRange"
    using n by (simp add: custom_new_no_throw_G2_def threshold_def Let_def)
  with i n show ?thesis by (simp add: getAllocatorsIndex_def)

qed

text \<open>
  An instance: the dispatcher at its start, with 16 empty entries.  A request of 128
  bytes is served from a new page; the request of size 0 is not.
\<close>

theorem size_zero_index_G2_witness:
  "length (allocators (dispatcher_G2_init (fresh_sys 12 [0x10000]) [0x90000])) = 16
   \<and> custom_new_no_throw_G2 0 (dispatcher_G2_init (fresh_sys 12 [0x10000]) [0x90000]) = Inl OutOfRange
   \<and> (case custom_new_no_throw_G2 128 (dispatcher_G2_init (fresh_sys 12 [0x10000]) [0x90000]) of
         Inr (p, d) \<Rightarrow> p = 0x10020 | Inl f \<Rightarrow> False)"

proof -
  have l: "length (allocators (dispatcher_G2_init (fresh_sys 12 [0x10000]) [0x90000]))
             = unat (drop_bit logOfVoid threshold)"
    by (simp add: dispatcher_G2_init_def)
  have "unat (drop_bit logOfVoid threshold) = 16"
    by (simp add: logOfVoid_def threshold_def drop_bit_eq_div)
  moreover have "case custom_new_no_throw_G2 128 (dispatcher_G2_init (fresh_sys 12 [0x10000]) [0x90000]) of
         Inr (p, d) \<Rightarrow> p = 0x10020 | Inl f \<Rightarrow> False"
    by code_simp
  ultimately show ?thesis using size_zero_index_G2 [OF l] l by simp

qed

section \<open>The size field of the page headers of \<open>GlobalLinkedPool2\<close>\<close>




lemma hdr_inv_empty: "live s = {} \<Longrightarrow> hdr_inv (g, s)"
  by (simp add: hdr_inv_def)




section \<open>Routing of a pointer by \<open>custom_delete\<close>\<close>












end
